theory Spec2Isabelle
  imports Main "HOL-Library.AList"
begin

section \<open>The request-dispatch core of the bot runtime (\<^verbatim>\<open>bot/Bot.ts\<close>)\<close>

text \<open>
  The development embeds \<^verbatim>\<open>run\<close>, \<^verbatim>\<open>Bot.initSessionStore\<close> and the request
  handler built by \<^verbatim>\<open>Bot.createRequestHandler\<close>. The collaborators of the class (the
  connector, the session store, the plugins, the dialog actions and the context's hooks)
  are parameters; every call the core makes on the connector or on the store is recorded, in
  program order, in a call log.
\<close>

subsection \<open>JavaScript values\<close>

datatype jsval =
    Undefined
  | Null
  | JBool bool
  | JNum int
  | JStr string
  | JArr "jsval list"
  | JObj "(string \<times> jsval) list"

text \<open>Truthiness, as \<^verbatim>\<open>!x\<close>, \<^verbatim>\<open>x || y\<close> and \<^verbatim>\<open>if (x)\<close> test it: every object and
  every array is truthy, the empty ones too.\<close>

fun truthy :: "jsval \<Rightarrow> bool" where
  "truthy Undefined = False"
| "truthy Null = False"
| "truthy (JBool b) = b"
| "truthy (JNum n) = (n \<noteq> 0)"
| "truthy (JStr s) = (s \<noteq> [])"
| "truthy (JArr vs) = True"
| "truthy (JObj kvs) = True"

fun typeof :: "jsval \<Rightarrow> string" where
  "typeof Undefined = ''undefined''"
| "typeof Null = ''object''"
| "typeof (JBool b) = ''boolean''"
| "typeof (JNum n) = ''number''"
| "typeof (JStr s) = ''string''"
| "typeof (JArr vs) = ''object''"
| "typeof (JObj kvs) = ''object''"

datatype error =
    MissingArgument
  | MissingHandler
  | InvariantViolation
  | TypeError
  | Thrown jsval

subsection \<open>Sessions and contexts\<close>

text \<open>
  Modelled from the spec: the type \<^verbatim>\<open>Session\<close> is not part of the module. A session is a
  record of \<^verbatim>\<open>id\<close>, \<^verbatim>\<open>platform\<close>, \<^verbatim>\<open>lastActivity\<close> and further state: a JavaScript object,
  given by its own properties and by the names of the properties that
  \<^verbatim>\<open>Object.defineProperty\<close> has made non-writable and non-configurable.
\<close>

record session =
  entries :: "(string \<times> jsval) list"
  readonly :: "string list"

definition get :: "session \<Rightarrow> string \<Rightarrow> jsval" where
  "get s k = (case map_of (entries s) k of None \<Rightarrow> Undefined | Some v \<Rightarrow> v)"

text \<open>\<^verbatim>\<open>Object.create(null)\<close>\<close>

definition emptySession :: session where
  "emptySession = \<lparr>entries = [], readonly = []\<rparr>"

text \<open>An assignment \<^verbatim>\<open>session[k] = v\<close> made by the strict-mode code of the module itself:
  on a non-writable property it throws.\<close>

definition assign :: "session \<Rightarrow> string \<Rightarrow> jsval \<Rightarrow> error + session" where
  "assign s k v =
     (if k \<in> set (readonly s) then Inl TypeError
      else Inr (s\<lparr>entries := AList.update k v (entries s)\<rparr>))"

text \<open>\<^verbatim>\<open>Object.defineProperty(s, k, {configurable: false, enumerable: true, writable: false,
  value: v})\<close>: on a property that is already non-configurable it succeeds only when nothing
  changes.\<close>

definition defineProperty :: "session \<Rightarrow> string \<Rightarrow> jsval \<Rightarrow> error + session" where
  "defineProperty s k v =
     (if k \<in> set (readonly s) then (if get s k = v then Inr s else Inl TypeError)
      else Inr (s\<lparr>entries := AList.update k v (entries s), readonly := k # readonly s\<rparr>))"

text \<open>
  What code outside the module (the connector's \<^verbatim>\<open>updateSession\<close>, a plugin, an action, a
  context hook) does to the objects it is handed is a list of mutations. A write to, or a
  deletion of, a non-writable non-configurable property leaves the object as it is; whether
  the writer then throws is part of the writer's own result.
\<close>

datatype session_op = Assign string jsval | Delete string

datatype ctx_op = OnSession session_op | SetResponse jsval

fun apply_session_op :: "session_op \<Rightarrow> session \<Rightarrow> session" where
  "apply_session_op (Assign k v) s =
     (if k \<in> set (readonly s) then s else s\<lparr>entries := AList.update k v (entries s)\<rparr>)"
| "apply_session_op (Delete k) s =
     (if k \<in> set (readonly s) then s else s\<lparr>entries := AList.delete k (entries s)\<rparr>)"

definition apply_session_ops :: "session_op list \<Rightarrow> session \<Rightarrow> session" where
  "apply_session_ops ops s = fold apply_session_op ops s"

text \<open>Modelled from the spec: the class \<^verbatim>\<open>Context\<close> is not part of the module. A context
  bundles the event, its optional session, the initial state, the request metadata, an
  outgoing-response slot and the flag that its session has been persisted.\<close>

record Context =
  event :: jsval
  session :: "session option"
  ctx_initialState :: jsval
  requestContext :: "jsval option"
  response :: jsval
  isSessionWritten :: bool

fun apply_op :: "ctx_op \<Rightarrow> Context \<Rightarrow> Context" where
  "apply_op (OnSession so) c = c\<lparr>session := map_option (apply_session_op so) (session c)\<rparr>"
| "apply_op (SetResponse v) c = c\<lparr>response := v\<rparr>"

definition apply_ops :: "ctx_op list \<Rightarrow> Context \<Rightarrow> Context" where
  "apply_ops ops c = fold apply_op ops c"

subsection \<open>Actions and \<^verbatim>\<open>run\<close>\<close>

text \<open>
  Properties handed to an action: an object whose values are plain values or a caught error
  (\<^verbatim>\<open>{ error: err }\<close>). The empty object is \<open>[]\<close>.
\<close>

datatype propval = PVal jsval | PErr error

type_synonym props = "(string \<times> propval) list"

text \<open>
  What \<^verbatim>\<open>nextDialog\<close> holds at run time: an action, or any value that is not a function
  (\<^verbatim>\<open>undefined\<close> for an action that returns nothing). Actions are named by values of
  \<open>'f\<close>; what a named action does when invoked on a context with properties is given by a
  behaviour: the mutations it makes on the context, and either the error it throws or the
  value it resolves to. An action may resolve to itself, so a chain need not end.
\<close>

datatype 'f dialog = Action 'f | Value jsval

type_synonym 'f behaviour = "'f \<Rightarrow> Context \<Rightarrow> props \<Rightarrow> ctx_op list \<times> (error + 'f dialog)"

text \<open>The state of one run: the context, the invocations made so far (what
  \<^verbatim>\<open>debugAction\<close> reports, with the properties passed) and the mutations made so far.\<close>

record 'f run_state =
  rs_context :: Context
  rs_invoked :: "('f \<times> props) list"
  rs_ops :: "ctx_op list"

datatype 'f status = Returned jsval | Threw error | OutOfFuel

definition start :: "Context \<Rightarrow> 'f run_state" where
  "start c = \<lparr>rs_context = c, rs_invoked = [], rs_ops = []\<rparr>"

text \<open>\<^verbatim>\<open>await nextDialog(context, props)\<close>\<close>

definition invoke ::
  "'f behaviour \<Rightarrow> 'f \<Rightarrow> props \<Rightarrow> 'f run_state \<Rightarrow> 'f run_state \<times> (error + 'f dialog)" where
  "invoke call f p s =
     (case call f (rs_context s) p of
        (ops, r) \<Rightarrow>
          (s\<lparr>rs_context := apply_ops ops (rs_context s),
             rs_invoked := rs_invoked s @ [(f, p)],
             rs_ops := rs_ops s @ ops\<rparr>, r))"

text \<open>The \<^verbatim>\<open>while (typeof nextDialog === 'function')\<close> loop, and \<^verbatim>\<open>return nextDialog\<close>
  after it: what is returned is the value that ended the loop. The fuel bounds the number
  of iterations; a loop that has not ended when the fuel is used up is \<open>OutOfFuel\<close>.\<close>

fun run_loop ::
  "nat \<Rightarrow> 'f behaviour \<Rightarrow> 'f dialog \<Rightarrow> 'f run_state \<Rightarrow> 'f run_state \<times> 'f status" where
  "run_loop n call (Value v) s = (s, Returned v)"
| "run_loop 0 call (Action f) s = (s, OutOfFuel)"
| "run_loop (Suc n) call (Action f) s =
     (case invoke call f [] s of
        (s', Inl e) \<Rightarrow> (s', Threw e)
      | (s', Inr nextDialog) \<Rightarrow> run_loop n call nextDialog s')"

text \<open>The function \<^verbatim>\<open>Run\<close> that \<^verbatim>\<open>run(action)\<close> returns. A failed \<^verbatim>\<open>invariant\<close>
  throws.\<close>

definition run ::
  "nat \<Rightarrow> 'f behaviour \<Rightarrow> 'f dialog \<Rightarrow> Context \<Rightarrow> props \<Rightarrow> 'f run_state \<times> 'f status" where
  "run n call action c p =
     (case action of
        Value v \<Rightarrow> (start c, Threw InvariantViolation)
      | Action f \<Rightarrow>
          (case invoke call f p (start c) of
             (s', Inl e) \<Rightarrow> (s', Threw e)
           | (s', Inr nextDialog) \<Rightarrow> run_loop n call nextDialog s'))"

text \<open>
  The chain as the specification words it: the current action is invoked with the given
  properties; while the result is an action, that action is invoked with empty properties;
  the chain ends at the first result that is not an action, with that result.
\<close>

inductive chain ::
  "'f behaviour \<Rightarrow> 'f \<Rightarrow> props \<Rightarrow> 'f run_state \<Rightarrow> 'f run_state \<Rightarrow> jsval \<Rightarrow> bool" where
  chain_end: "invoke call f p s = (s', Inr (Value v)) \<Longrightarrow> chain call f p s s' v"
| chain_step: "invoke call f p s = (s1, Inr (Action g)) \<Longrightarrow> chain call g [] s1 s' v
     \<Longrightarrow> chain call f p s s' v"

subsection \<open>The collaborators\<close>

text \<open>The first argument of \<^verbatim>\<open>getUniqueSessionKey\<close> and the second of
  \<^verbatim>\<open>updateSession\<close>: the whole body, or one event.\<close>

datatype payload = WholeBody jsval | SingleEvent jsval

text \<open>
  Modelled from the spec: the interface \<^verbatim>\<open>Connector\<close> is not part of the module. Each
  method may throw. \<^verbatim>\<open>updateSession\<close> mutates the session it is given. For
  \<^verbatim>\<open>createContext\<close>, \<open>newResponse\<close> is the content of the response slot of a context just
  built and \<open>handlerDidEnd\<close> the optional hook of the contexts this connector builds (the
  mutations it makes and the error it throws, if any).
\<close>

record connector =
  platform :: string
  mapRequestToEvents :: "jsval \<Rightarrow> error + jsval list"
  getUniqueSessionKey :: "payload \<Rightarrow> jsval option \<Rightarrow> error + string option"
  updateSession :: "session \<Rightarrow> payload \<Rightarrow> error + session_op list"
  newResponse :: jsval
  handlerDidEnd :: "(Context \<Rightarrow> ctx_op list \<times> error option) option"

text \<open>Modelled from the spec: the interface \<^verbatim>\<open>SessionStore\<close> is not part of the module.
  Its methods \<^verbatim>\<open>init\<close>, \<^verbatim>\<open>read\<close> and \<^verbatim>\<open>write\<close>, over the store's own state \<open>'s\<close>; each may
  fail.\<close>

record 's SessionStore =
  store_init :: "'s \<Rightarrow> error + 's"
  store_read :: "'s \<Rightarrow> string \<Rightarrow> error + session option"
  store_write :: "'s \<Rightarrow> jsval \<Rightarrow> session \<Rightarrow> error + 's"

text \<open>A plugin: the mutations it makes on the context, and the error it throws, if any.\<close>

type_synonym plugin = "Context \<Rightarrow> ctx_op list \<times> error option"

text \<open>The fields of the class that a request reads.\<close>

record ('s, 'f) Bot =
  sessions :: "'s SessionStore"
  connector_of :: connector
  handler :: "'f option"
  errorHandler :: "'f option"
  initialState :: jsval
  plugins :: "plugin list"
  sync :: bool

text \<open>What the module imports or reads from its environment: \<^verbatim>\<open>camelcaseKeysDeep\<close>, the
  behaviour of the actions, and \<^verbatim>\<open>Date.now()\<close> as read while the context at a given position
  is persisted.\<close>

record 'f env =
  camelcaseKeysDeep :: "jsval \<Rightarrow> jsval"
  behaviour_of :: "'f behaviour"
  Date_now :: "nat \<Rightarrow> int"

text \<open>The calls made on the store and on the connector.\<close>

datatype call =
    StoreInit
  | StoreRead string
  | StoreWrite jsval session
  | MapRequestToEvents jsval
  | GetUniqueSessionKey payload "jsval option"
  | UpdateSession session payload
  | CreateContext jsval "session option"

text \<open>
  What a request changes: the field \<^verbatim>\<open>_initialized\<close>, the state of the store, the call log,
  and what has been passed to \<^verbatim>\<open>console.error\<close>. A rejected \<^verbatim>\<open>Promise.all\<close> reports the
  reason that came first in time; the log keeps the reasons it is one of.
\<close>

record 's state =
  initialized :: bool
  store :: 's
  calls :: "call list"
  console :: "error list list"

definition logCall :: "call \<Rightarrow> 's state \<Rightarrow> 's state" where
  "logCall c st = st\<lparr>calls := calls st @ [c]\<rparr>"

subsection \<open>\<^verbatim>\<open>initSessionStore\<close>\<close>

text \<open>
  The method has one suspension point, \<^verbatim>\<open>await this._sessions.init()\<close>. Up to it: the test
  of the flag and the call of \<^verbatim>\<open>init\<close>. After it: the assignment of the flag, if \<^verbatim>\<open>init\<close>
  succeeded.
\<close>

definition initSessionStore_enter ::
  "'s SessionStore \<Rightarrow> 's state \<Rightarrow> 's state \<times> (error + unit) option" where
  "initSessionStore_enter sto st =
     (if \<not> initialized st then
        (case store_init sto (store st) of
           Inl e \<Rightarrow> (logCall StoreInit st, Some (Inl e))
         | Inr s' \<Rightarrow> (logCall StoreInit (st\<lparr>store := s'\<rparr>), Some (Inr ())))
      else (st, None))"

definition initSessionStore_resume ::
  "(error + unit) \<Rightarrow> 's state \<Rightarrow> 's state \<times> (error + unit)" where
  "initSessionStore_resume r st =
     (case r of Inl e \<Rightarrow> (st, Inl e) | Inr u \<Rightarrow> (st\<lparr>initialized := True\<rparr>, Inr ()))"

text \<open>One call of the method with nothing else running in between.\<close>

definition initSessionStore :: "'s SessionStore \<Rightarrow> 's state \<Rightarrow> 's state \<times> (error + unit)" where
  "initSessionStore sto st =
     (case initSessionStore_enter sto st of
        (st', None) \<Rightarrow> (st', Inr ())
      | (st', Some r) \<Rightarrow> initSessionStore_resume r st')"

text \<open>
  Several requests in flight: request \<open>r\<close> arrives and runs up to the suspension point
  (\<open>Arrive r\<close>), and later the promise it awaits settles (\<open>InitSettled r\<close>). A schedule is a
  list of such events.
\<close>

datatype init_event = Arrive nat | InitSettled nat

record 's init_machine =
  im_state :: "'s state"
  im_waiting :: "(nat \<times> (error + unit)) list"

fun init_step :: "'s SessionStore \<Rightarrow> init_event \<Rightarrow> 's init_machine \<Rightarrow> 's init_machine" where
  "init_step sto (Arrive r) m =
     (case initSessionStore_enter sto (im_state m) of
        (st', None) \<Rightarrow> m\<lparr>im_state := st'\<rparr>
      | (st', Some res) \<Rightarrow> m\<lparr>im_state := st', im_waiting := (r, res) # im_waiting m\<rparr>)"
| "init_step sto (InitSettled r) m =
     (case map_of (im_waiting m) r of
        None \<Rightarrow> m
      | Some res \<Rightarrow>
          m\<lparr>im_state := fst (initSessionStore_resume res (im_state m)),
            im_waiting := AList.delete r (im_waiting m)\<rparr>)"

definition init_schedule ::
  "'s SessionStore \<Rightarrow> init_event list \<Rightarrow> 's state \<Rightarrow> 's state" where
  "init_schedule sto evs st =
     im_state (fold (init_step sto) evs \<lparr>im_state = st, im_waiting = []\<rparr>)"

text \<open>Requests that arrive one after the other, each after the previous one's
  initialization has settled.\<close>

definition one_by_one :: "nat list \<Rightarrow> init_event list" where
  "one_by_one rs = concat (map (\<lambda>r. [Arrive r, InitSettled r]) rs)"

definition initCalls :: "'s state \<Rightarrow> nat" where
  "initCalls st = count_list (calls st) StoreInit"

subsection \<open>Events to contexts\<close>

text \<open>Lines 216 to 230: \<^verbatim>\<open>id\<close> and \<^verbatim>\<open>platform\<close> are given their values and made
  non-writable and non-configurable.\<close>

definition fixIdentity :: "session \<Rightarrow> string \<Rightarrow> string \<Rightarrow> error + session" where
  "fixIdentity s sessionId plat =
     (case defineProperty s ''id''
             (if truthy (get s ''id'') then get s ''id'' else JStr sessionId) of
        Inl e \<Rightarrow> Inl e
      | Inr s1 \<Rightarrow>
          (case (if \<not> truthy (get s1 ''platform'') then assign s1 ''platform'' (JStr plat)
                 else Inr s1) of
             Inl e \<Rightarrow> Inl e
           | Inr s2 \<Rightarrow> defineProperty s2 ''platform'' (get s2 ''platform'')))"

text \<open>Lines 207 to 236, for a truthy session key.\<close>

definition resolveSession ::
  "('s, 'f) Bot \<Rightarrow> payload \<Rightarrow> string \<Rightarrow> 's state \<Rightarrow> 's state \<times> (error + session)" where
  "resolveSession self pl sessionKey st =
     (let sessionId = platform (connector_of self) @ '':'' @ sessionKey;
          st1 = logCall (StoreRead sessionId) st
      in case store_read (sessions self) (store st) sessionId of
           Inl e \<Rightarrow> (st1, Inl e)
         | Inr r \<Rightarrow>
             (case fixIdentity (case r of None \<Rightarrow> emptySession | Some s \<Rightarrow> s) sessionId
                     (platform (connector_of self)) of
                Inl e \<Rightarrow> (st1, Inl e)
              | Inr s \<Rightarrow>
                  (let st2 = logCall (UpdateSession s pl) st1
                   in case updateSession (connector_of self) s pl of
                        Inl e \<Rightarrow> (st2, Inl e)
                      | Inr ops \<Rightarrow> (st2, Inr (apply_session_ops ops s)))))"

text \<open>Modelled from the spec: \<^verbatim>\<open>createContext\<close> bundles what it is given.\<close>

definition createContext ::
  "connector \<Rightarrow> jsval \<Rightarrow> session option \<Rightarrow> jsval \<Rightarrow> jsval option \<Rightarrow> Context" where
  "createContext conn ev sess initial rc =
     \<lparr>event = ev, session = sess, ctx_initialState = initial, requestContext = rc,
      response = newResponse conn, isSessionWritten = False\<rparr>"

definition payloadFor :: "nat \<Rightarrow> jsval \<Rightarrow> jsval \<Rightarrow> payload" where
  "payloadFor eventsLength body ev = (if eventsLength = 1 then WholeBody body else SingleEvent ev)"

text \<open>\<^verbatim>\<open>if (sessionKey) { ... }\<close>: a session is resolved for a truthy key; the empty
  string is falsy.\<close>

definition resolveIfKey ::
  "('s, 'f) Bot \<Rightarrow> payload \<Rightarrow> string option \<Rightarrow> 's state
     \<Rightarrow> 's state \<times> (error + session option)" where
  "resolveIfKey self pl sessionKey st =
     (case sessionKey of
        None \<Rightarrow> (st, Inr None)
      | Some k \<Rightarrow>
          (if k = [] then (st, Inr None)
           else (case resolveSession self pl k st of
                   (st2, Inl e) \<Rightarrow> (st2, Inl e)
                 | (st2, Inr s) \<Rightarrow> (st2, Inr (Some s)))))"

text \<open>The function mapped over the events (lines 195 to 246).\<close>

definition mapper ::
  "('s, 'f) Bot \<Rightarrow> nat \<Rightarrow> jsval \<Rightarrow> jsval option \<Rightarrow> 's state \<Rightarrow> jsval
     \<Rightarrow> 's state \<times> (error + Context)" where
  "mapper self eventsLength body rc st ev =
     (let pl = payloadFor eventsLength body ev;
          st1 = logCall (GetUniqueSessionKey pl rc) st
      in case getUniqueSessionKey (connector_of self) pl rc of
           Inl e \<Rightarrow> (st1, Inl e)
         | Inr sessionKey \<Rightarrow>
             (case resolveIfKey self pl sessionKey st1 of
                (st2, Inl e) \<Rightarrow> (st2, Inl e)
              | (st2, Inr sess) \<Rightarrow>
                  (logCall (CreateContext ev sess) st2,
                   Inr (createContext (connector_of self) ev sess (initialState self) rc))))"

text \<open>
  The same function as an async function runs: up to its first suspension point, the
  \<^verbatim>\<open>await\<close> of the store's \<^verbatim>\<open>read\<close>, and from there to its end. Without a truthy session
  key, or when \<^verbatim>\<open>getUniqueSessionKey\<close> throws, it ends without suspending. What is pending
  at the suspension point: the event, the payload, the session id and what \<^verbatim>\<open>read\<close> will
  give. The second \<^verbatim>\<open>await\<close>, of \<^verbatim>\<open>updateSession\<close>, is not a point where another function is
  resumed: the update is taken to settle before the next read does.
\<close>

datatype pending =
    Finished "error + Context"
  | AwaitsRead jsval payload string "error + session option"

fun isFinished :: "pending \<Rightarrow> bool" where
  "isFinished (Finished r) = True"
| "isFinished (AwaitsRead ev pl sessionId r) = False"

definition mapperStart ::
  "('s, 'f) Bot \<Rightarrow> nat \<Rightarrow> jsval \<Rightarrow> jsval option \<Rightarrow> 's state \<Rightarrow> jsval
     \<Rightarrow> 's state \<times> pending" where
  "mapperStart self eventsLength body rc st ev =
     (let pl = payloadFor eventsLength body ev;
          st1 = logCall (GetUniqueSessionKey pl rc) st;
          noSession =
            (logCall (CreateContext ev None) st1,
             Finished (Inr (createContext (connector_of self) ev None (initialState self) rc)))
      in case getUniqueSessionKey (connector_of self) pl rc of
           Inl e \<Rightarrow> (st1, Finished (Inl e))
         | Inr None \<Rightarrow> noSession
         | Inr (Some k) \<Rightarrow>
             (if k = [] then noSession
              else (let sessionId = platform (connector_of self) @ '':'' @ k
                    in (logCall (StoreRead sessionId) st1,
                        AwaitsRead ev pl sessionId
                          (store_read (sessions self) (store st) sessionId)))))"

definition mapperResume ::
  "('s, 'f) Bot \<Rightarrow> jsval option \<Rightarrow> 's state \<Rightarrow> pending \<Rightarrow> 's state \<times> (error + Context)" where
  "mapperResume self rc st p =
     (case p of
        Finished r \<Rightarrow> (st, r)
      | AwaitsRead ev pl sessionId (Inl e) \<Rightarrow> (st, Inl e)
      | AwaitsRead ev pl sessionId (Inr r) \<Rightarrow>
          (case fixIdentity (case r of None \<Rightarrow> emptySession | Some s \<Rightarrow> s) sessionId
                  (platform (connector_of self)) of
             Inl e \<Rightarrow> (st, Inl e)
           | Inr s \<Rightarrow>
               (let st2 = logCall (UpdateSession s pl) st
                in case updateSession (connector_of self) s pl of
                     Inl e \<Rightarrow> (st2, Inl e)
                   | Inr ops \<Rightarrow>
                       (logCall (CreateContext ev (Some (apply_session_ops ops s))) st2,
                        Inr (createContext (connector_of self) ev
                               (Some (apply_session_ops ops s)) (initialState self) rc)))))"

text \<open>
  The library function \<^verbatim>\<open>pMap\<close>, called with \<^verbatim>\<open>concurrency: 5\<close>. It starts the function
  on the first items, as many as the concurrency allows; each time a started function
  succeeds it starts the function on the next item; at the first failure it rejects, and
  from then on it starts nothing, while what is in flight runs on, its results dropped.
  Which of the functions in flight settles next is a matter of timing. One order is
  represented: a function that has ended without suspending is settled before a suspended
  one, and of the suspended ones the function of the earliest item is resumed first and runs
  to its end. So the calls of one event follow each other in the log as they do in time,
  and the calls of different events interleave as they do in this order.
  The result: the state when the promise of \<^verbatim>\<open>pMap\<close> settles; the results in the order of
  the items, or the first failure; and the state when everything in flight has ended.
\<close>

fun startAll ::
  "('s state \<Rightarrow> 'a \<Rightarrow> 's state \<times> 'p) \<Rightarrow> (nat \<times> 'a) list \<Rightarrow> 's state
     \<Rightarrow> 's state \<times> (nat \<times> 'p) list" where
  "startAll launch [] st = (st, [])"
| "startAll launch ((i, x) # xs) st =
     (case launch st x of
        (st1, p) \<Rightarrow> (case startAll launch xs st1 of (st2, ps) \<Rightarrow> (st2, (i, p) # ps)))"

definition takeNext ::
  "('p \<Rightarrow> bool) \<Rightarrow> (nat \<times> 'p) list \<Rightarrow> ((nat \<times> 'p) \<times> (nat \<times> 'p) list) option" where
  "takeNext settled queue =
     (case queue of
        [] \<Rightarrow> None
      | q # qs \<Rightarrow>
          (case find (\<lambda>r. settled (snd r)) queue of
             None \<Rightarrow> Some (q, qs)
           | Some r \<Rightarrow> Some (r, remove1 r queue)))"

function drain ::
  "('p \<Rightarrow> bool) \<Rightarrow> ('s state \<Rightarrow> 'p \<Rightarrow> 's state \<times> (error + 'b))
     \<Rightarrow> ('s state \<Rightarrow> 'a \<Rightarrow> 's state \<times> 'p)
     \<Rightarrow> (nat \<times> 'p) list \<Rightarrow> (nat \<times> 'a) list \<Rightarrow> (error \<times> 's state) option
     \<Rightarrow> (nat \<times> 'b) list \<Rightarrow> 's state
     \<Rightarrow> 's state \<times> (error + 'b list) \<times> 's state" where
  "drain settled resume launch queue rest rej acc st =
     (case takeNext settled queue of
        None \<Rightarrow>
          (case rej of
             None \<Rightarrow> (st, Inr (map snd (sort_key fst acc)), st)
           | Some (e, st0) \<Rightarrow> (st0, Inl e, st))
      | Some ((i, p), queue') \<Rightarrow>
          (case resume st p of
             (st1, Inl e) \<Rightarrow>
               drain settled resume launch queue' rest
                 (case rej of None \<Rightarrow> Some (e, st1) | Some r \<Rightarrow> Some r) acc st1
           | (st1, Inr y) \<Rightarrow>
               (case rej of
                  Some r \<Rightarrow> drain settled resume launch queue' rest (Some r) acc st1
                | None \<Rightarrow>
                    (case rest of
                       [] \<Rightarrow> drain settled resume launch queue' [] None ((i, y) # acc) st1
                     | (j, x) # rest' \<Rightarrow>
                         (case launch st1 x of
                            (st2, p') \<Rightarrow>
                              drain settled resume launch (queue' @ [(j, p')]) rest' None
                                ((i, y) # acc) st2)))))"
  by pat_completeness auto

termination
proof -
  have shorter: "length qs' < length qs"
    if "takeNext settled qs = Some (q, qs')" for settled :: "'p \<Rightarrow> bool" and qs q qs'
  proof (cases "find (\<lambda>r. settled (snd r)) qs")
    case None
    with that show ?thesis by (auto simp: takeNext_def split: list.splits)
  next
    case (Some r)
    then have "r \<in> set qs" by (auto simp: find_Some_iff)
    moreover from that Some have "qs' = remove1 r qs"
      by (auto simp: takeNext_def split: list.splits)
    ultimately have "length qs' = length qs - 1" "qs \<noteq> []"
      by (auto simp: length_remove1)
    then show ?thesis by (cases qs) simp_all
  qed
  show ?thesis
    by (relation "measures [\<lambda>(settled, resume, launch, queue, rest, rej, acc, st). length rest,
                           \<lambda>(settled, resume, launch, queue, rest, rej, acc, st). length queue]")
       (auto dest: shorter)
qed

definition pMap ::
  "nat \<Rightarrow> ('p \<Rightarrow> bool) \<Rightarrow> ('s state \<Rightarrow> 'p \<Rightarrow> 's state \<times> (error + 'b))
     \<Rightarrow> ('s state \<Rightarrow> 'a \<Rightarrow> 's state \<times> 'p) \<Rightarrow> 'a list \<Rightarrow> 's state
     \<Rightarrow> 's state \<times> (error + 'b list) \<times> 's state" where
  "pMap concurrency settled resume launch xs st =
     (case startAll launch (take concurrency (enumerate 0 xs)) st of
        (st1, queue) \<Rightarrow>
          drain settled resume launch queue (drop concurrency (enumerate 0 xs)) None [] st1)"

text \<open>Lines 253 to 257: every plugin on every context; a failure rejects the request.\<close>

fun runPlugins :: "plugin list \<Rightarrow> Context \<Rightarrow> error + Context" where
  "runPlugins [] c = Inr c"
| "runPlugins (ext # exts) c =
     (case ext c of
        (ops, Some e) \<Rightarrow> Inl e
      | (ops, None) \<Rightarrow> runPlugins exts (apply_ops ops c))"

fun runPluginsAll :: "plugin list \<Rightarrow> Context list \<Rightarrow> error + Context list" where
  "runPluginsAll exts [] = Inr []"
| "runPluginsAll exts (c # cs) =
     (case runPlugins exts c of
        Inl e \<Rightarrow> Inl e
      | Inr c' \<Rightarrow> (case runPluginsAll exts cs of Inl e \<Rightarrow> Inl e | Inr cs' \<Rightarrow> Inr (c' # cs')))"

subsection \<open>One task per context\<close>

text \<open>
  Lines 270 to 286: the handler is run; if it ends, the context's hook is called; a failure
  of either goes to the error handler, if there is one; a failure that remains is passed to
  \<^verbatim>\<open>context.emitError\<close> and rejects the task. A task whose run has not ended within the fuel
  is \<open>Pending\<close>.
\<close>

datatype outcome = Fulfilled | Rejected error | Pending

record 'f task =
  t_state :: "'f run_state"
  t_emitted :: "error list"
  t_outcome :: outcome

definition andThen :: "'f run_state \<Rightarrow> 'f run_state \<Rightarrow> 'f run_state" where
  "andThen s s2 =
     \<lparr>rs_context = rs_context s2,
      rs_invoked = rs_invoked s @ rs_invoked s2,
      rs_ops = rs_ops s @ rs_ops s2\<rparr>"

definition mutate :: "ctx_op list \<Rightarrow> 'f run_state \<Rightarrow> 'f run_state" where
  "mutate ops s = s\<lparr>rs_context := apply_ops ops (rs_context s), rs_ops := rs_ops s @ ops\<rparr>"

text \<open>The last \<^verbatim>\<open>catch\<close>.\<close>

definition emitAndThrow :: "error \<Rightarrow> 'f run_state \<Rightarrow> 'f task" where
  "emitAndThrow e s = \<lparr>t_state = s, t_emitted = [e], t_outcome = Rejected e\<rparr>"

text \<open>The first \<^verbatim>\<open>catch\<close>.\<close>

definition onFailure ::
  "nat \<Rightarrow> 'f behaviour \<Rightarrow> 'f option \<Rightarrow> error \<Rightarrow> 'f run_state \<Rightarrow> 'f task" where
  "onFailure n call eh e s =
     (case eh of
        None \<Rightarrow> emitAndThrow e s
      | Some g \<Rightarrow>
          (case run n call (Action g) (rs_context s) [(''error'', PErr e)] of
             (s2, Returned d) \<Rightarrow> \<lparr>t_state = andThen s s2, t_emitted = [], t_outcome = Fulfilled\<rparr>
           | (s2, Threw e2) \<Rightarrow> emitAndThrow e2 (andThen s s2)
           | (s2, OutOfFuel) \<Rightarrow> \<lparr>t_state = andThen s s2, t_emitted = [], t_outcome = Pending\<rparr>))"

definition runTask ::
  "nat \<Rightarrow> 'f behaviour \<Rightarrow> (Context \<Rightarrow> ctx_op list \<times> error option) option \<Rightarrow> 'f \<Rightarrow> 'f option
     \<Rightarrow> Context \<Rightarrow> 'f task" where
  "runTask n call hook h eh c =
     (case run n call (Action h) c [] of
        (s, Returned d) \<Rightarrow>
          (case hook of
             None \<Rightarrow> \<lparr>t_state = s, t_emitted = [], t_outcome = Fulfilled\<rparr>
           | Some didEnd \<Rightarrow>
               (case didEnd (rs_context s) of
                  (ops, None) \<Rightarrow> \<lparr>t_state = mutate ops s, t_emitted = [], t_outcome = Fulfilled\<rparr>
                | (ops, Some e) \<Rightarrow> onFailure n call eh e (mutate ops s)))
      | (s, Threw e) \<Rightarrow> onFailure n call eh e s
      | (s, OutOfFuel) \<Rightarrow> \<lparr>t_state = s, t_emitted = [], t_outcome = Pending\<rparr>)"

text \<open>\<^verbatim>\<open>Promise.all\<close> of the tasks: rejected as soon as one task is, fulfilled when all
  are.\<close>

datatype settled = AllFulfilled | SomeRejected "error list" | StillPending

definition rejections :: "'f task list \<Rightarrow> error list" where
  "rejections ts = concat (map (\<lambda>t. case t_outcome t of Rejected e \<Rightarrow> [e] | _ \<Rightarrow> []) ts)"

definition promiseAll :: "'f task list \<Rightarrow> settled" where
  "promiseAll ts =
     (if rejections ts \<noteq> [] then SomeRejected (rejections ts)
      else if Pending \<in> set (map t_outcome ts) then StillPending
      else AllFulfilled)"

subsection \<open>Persistence\<close>

text \<open>
  Lines 295 to 309, and again 327 to 341, for the context at position \<open>i\<close>: the flag is set;
  if the context has a session, \<^verbatim>\<open>lastActivity\<close> is assigned and \<^verbatim>\<open>write\<close> is called with
  \<^verbatim>\<open>session.id\<close>. Each context's function runs up to its call of \<^verbatim>\<open>write\<close> before any
  result is awaited, so a failed write does not keep the later ones from being made; the
  state of the store is threaded through the writes in the order of the calls. The result:
  the state, the context, and the errors raised.
\<close>

definition persist ::
  "'s SessionStore \<Rightarrow> int \<Rightarrow> Context \<Rightarrow> 's state \<Rightarrow> 's state \<times> Context \<times> error list" where
  "persist sto now c st =
     (let c1 = c\<lparr>isSessionWritten := True\<rparr>
      in case session c1 of
           None \<Rightarrow> (st, c1, [])
         | Some s \<Rightarrow>
             (case assign s ''lastActivity'' (JNum now) of
                Inl e \<Rightarrow> (st, c1, [e])
              | Inr s' \<Rightarrow>
                  (let st1 = logCall (StoreWrite (get s' ''id'') s') st;
                       c2 = c1\<lparr>session := Some s'\<rparr>
                   in case store_write sto (store st) (get s' ''id'') s' of
                        Inl e \<Rightarrow> (st1, c2, [e])
                      | Inr store' \<Rightarrow> (st1\<lparr>store := store'\<rparr>, c2, []))))"

fun persistAll ::
  "'s SessionStore \<Rightarrow> (nat \<Rightarrow> int) \<Rightarrow> nat \<Rightarrow> Context list \<Rightarrow> 's state
     \<Rightarrow> 's state \<times> Context list \<times> error list" where
  "persistAll sto now i [] st = (st, [], [])"
| "persistAll sto now i (c # cs) st =
     (case persist sto (now i) c st of
        (st1, c', errs) \<Rightarrow>
          (case persistAll sto now (Suc i) cs st1 of
             (st2, cs', errs') \<Rightarrow> (st2, c' # cs', errs @ errs')))"

text \<open>\<^verbatim>\<open>catch (err) { console.error(err) }\<close>, and \<^verbatim>\<open>.catch(console.error)\<close>\<close>

definition consoleError :: "error list \<Rightarrow> 's state \<Rightarrow> 's state" where
  "consoleError errs st = (if errs = [] then st else st\<lparr>console := console st @ [errs]\<rparr>)"

text \<open>What follows \<^verbatim>\<open>promises\<close> in both modes: nothing is written unless every task is
  fulfilled. \<open>None\<close>: the tasks have not all settled.\<close>

definition afterTasks ::
  "'s SessionStore \<Rightarrow> (nat \<Rightarrow> int) \<Rightarrow> 'f task list \<Rightarrow> 's state \<Rightarrow> ('s state \<times> Context list) option"
  where
  "afterTasks sto now ts st =
     (case promiseAll ts of
        StillPending \<Rightarrow> None
      | SomeRejected errs \<Rightarrow> Some (consoleError errs st, map (rs_context \<circ> t_state) ts)
      | AllFulfilled \<Rightarrow>
          (case persistAll sto now 0 (map (rs_context \<circ> t_state) ts) st of
             (st1, cs, errs) \<Rightarrow> Some (consoleError errs st1, cs)))"

subsection \<open>The request handler\<close>

text \<open>
  What a call of the request handler gives: the value it resolves to, or the error it
  rejects with; the state when it does; and the state once the work it has left behind is
  over (\<open>None\<close> if that work has not ended within the fuel).
\<close>

record 's result =
  returned :: "error + jsval"
  at_return :: "'s state"
  in_the_end :: "'s state option"

definition reject :: "error \<Rightarrow> 's state \<Rightarrow> 's result" where
  "reject e st = \<lparr>returned = Inl e, at_return = st, in_the_end = Some st\<rparr>"

text \<open>
  Line 316. When \<^verbatim>\<open>await promises\<close> throws, the tasks that have not settled are still
  running: the first context is read as it is then, after the first \<open>seen\<close> of the mutations
  its task makes. When every task is fulfilled, the task of the first context is over.
  Reading \<^verbatim>\<open>response\<close> of the element 0 of an empty array throws.
\<close>

definition firstResponse :: "nat \<Rightarrow> Context list \<Rightarrow> 'f task list \<Rightarrow> error + jsval" where
  "firstResponse seen contexts ts =
     (case zip contexts ts of
        [] \<Rightarrow> Inl TypeError
      | (c, t) # rest \<Rightarrow>
          (case promiseAll ts of
             SomeRejected errs \<Rightarrow> Inr (response (apply_ops (take seen (rs_ops (t_state t))) c))
           | _ \<Rightarrow> Inr (response (rs_context (t_state t)))))"

text \<open>Lines 290 to 322. \<open>None\<close>: the tasks have not all settled within the fuel, and the
  handler has not returned.\<close>

definition blocking ::
  "nat \<Rightarrow> 's SessionStore \<Rightarrow> (nat \<Rightarrow> int) \<Rightarrow> Context list \<Rightarrow> 'f task list \<Rightarrow> 's state
     \<Rightarrow> 's result option" where
  "blocking seen sto now contexts ts st =
     (case afterTasks sto now ts st of
        None \<Rightarrow> None
      | Some (st1, cs) \<Rightarrow>
          Some \<lparr>returned = firstResponse seen contexts ts, at_return = st1,
                in_the_end = Some st1\<rparr>)"

text \<open>Lines 323 to 346: nothing is awaited and the function ends without a value.\<close>

definition fireAndForget ::
  "'s SessionStore \<Rightarrow> (nat \<Rightarrow> int) \<Rightarrow> 'f task list \<Rightarrow> 's state \<Rightarrow> 's result" where
  "fireAndForget sto now ts st =
     \<lparr>returned = Inr Undefined, at_return = st,
      in_the_end = map_option fst (afterTasks sto now ts st)\<rparr>"

text \<open>The steps from \<^verbatim>\<open>mapRequestToEvents\<close> to the plugins (lines 191 to 257): the
  state when they are over for the request handler, their result, and the state when the
  functions that a failure has left in flight have ended.\<close>

definition buildAll ::
  "('s, 'f) Bot \<Rightarrow> jsval \<Rightarrow> jsval option \<Rightarrow> 's state
     \<Rightarrow> 's state \<times> (error + Context list) \<times> 's state" where
  "buildAll self body rc st =
     (let st1 = logCall (MapRequestToEvents body) st
      in case mapRequestToEvents (connector_of self) body of
           Inl e \<Rightarrow> (st1, Inl e, st1)
         | Inr events \<Rightarrow>
             (case pMap 5 isFinished (mapperResume self rc)
                     (mapperStart self (length events) body rc) events st1 of
                (st2, Inl e, st3) \<Rightarrow> (st2, Inl e, st3)
              | (st2, Inr contexts, st3) \<Rightarrow> (st2, runPluginsAll (plugins self) contexts, st3)))"

text \<open>The state when these steps are over for the request handler, and their result.\<close>

definition buildContexts ::
  "('s, 'f) Bot \<Rightarrow> jsval \<Rightarrow> jsval option \<Rightarrow> 's state \<Rightarrow> 's state \<times> (error + Context list)" where
  "buildContexts self body rc st = (case buildAll self body rc st of (st2, r, st3) \<Rightarrow> (st2, r))"

text \<open>
  The function that \<^verbatim>\<open>createRequestHandler\<close> returns (lines 176 to 346). \<open>n\<close> is the fuel of
  every run, \<open>seen\<close> is as in \<open>firstResponse\<close>.
\<close>

definition requestHandler ::
  "nat \<Rightarrow> nat \<Rightarrow> ('s, 'f) Bot \<Rightarrow> 'f env \<Rightarrow> 's state \<Rightarrow> jsval \<Rightarrow> jsval option
     \<Rightarrow> 's result option" where
  "requestHandler n seen self env st inputBody rc =
     (if \<not> truthy inputBody then Some (reject MissingArgument st)
      else
        (case initSessionStore (sessions self) st of
           (st1, Inl e) \<Rightarrow> Some (reject e st1)
         | (st1, Inr u) \<Rightarrow>
             (case buildAll self (camelcaseKeysDeep env inputBody) rc st1 of
                (st2, Inl e, st3) \<Rightarrow>
                  Some \<lparr>returned = Inl e, at_return = st2, in_the_end = Some st3\<rparr>
              | (st2, Inr contexts, st3) \<Rightarrow>
                  (case handler self of
                     None \<Rightarrow> Some (reject MissingHandler st2)
                   | Some h \<Rightarrow>
                       (let ts = map (runTask n (behaviour_of env)
                                        (handlerDidEnd (connector_of self)) h (errorHandler self))
                                   contexts
                        in if sync self
                           then blocking seen (sessions self) (Date_now env) contexts ts st2
                           else Some (fireAndForget (sessions self) (Date_now env) ts st2))))))"

text \<open>\<^verbatim>\<open>createRequestHandler\<close>: without a handler it throws. The listener it installs on
  the emitter is not represented; what a task passes to \<^verbatim>\<open>context.emitError\<close> is kept with
  the task.\<close>

definition createRequestHandler ::
  "nat \<Rightarrow> nat \<Rightarrow> ('s, 'f) Bot \<Rightarrow> 'f env
     \<Rightarrow> error + ('s state \<Rightarrow> jsval \<Rightarrow> jsval option \<Rightarrow> 's result option)" where
  "createRequestHandler n seen self env =
     (case handler self of
        None \<Rightarrow> Inl MissingHandler
      | Some h \<Rightarrow> Inr (requestHandler n seen self env))"

subsection \<open>The specification's wording\<close>

text \<open>The blocking mode's return value as the specification words it: the first
  context's response if it is a non-empty structured value, else nothing.\<close>

definition structuredOrNothing :: "jsval \<Rightarrow> jsval" where
  "structuredOrNothing v = (if truthy v \<and> typeof v = ''object'' then v else Undefined)"

text \<open>The identity of a session, and of the session of a context: what \<^verbatim>\<open>session.id\<close> and
  \<^verbatim>\<open>session.platform\<close> read.\<close>

definition identity :: "session \<Rightarrow> jsval \<times> jsval" where
  "identity s = (get s ''id'', get s ''platform'')"

definition sessionIdentity :: "Context \<Rightarrow> (jsval \<times> jsval) option" where
  "sessionIdentity c = map_option identity (session c)"

definition fixed :: "session \<Rightarrow> bool" where
  "fixed s = (''id'' \<in> set (readonly s) \<and> ''platform'' \<in> set (readonly s))"

text \<open>A context holds a session whose \<^verbatim>\<open>id\<close> and \<^verbatim>\<open>platform\<close> are fixed, with the given
  values.\<close>

definition settledIdentity :: "jsval \<times> jsval \<Rightarrow> Context \<Rightarrow> bool" where
  "settledIdentity i c = (case session c of None \<Rightarrow> False | Some s \<Rightarrow> fixed s \<and> identity s = i)"

text \<open>The context of a run is the context it started from with the mutations of the run
  made.\<close>

definition replays :: "Context \<Rightarrow> 'f run_state \<Rightarrow> bool" where
  "replays c s = (rs_context s = apply_ops (rs_ops s) c)"

text \<open>The payload of a call of \<^verbatim>\<open>getUniqueSessionKey\<close> or \<^verbatim>\<open>updateSession\<close>.\<close>

fun payloadOf :: "call \<Rightarrow> payload option" where
  "payloadOf (GetUniqueSessionKey pl rc) = Some pl"
| "payloadOf (UpdateSession s pl) = Some pl"
| "payloadOf c = None"

text \<open>The payload that a suspended function will hand to \<^verbatim>\<open>updateSession\<close>.\<close>

fun pendingPayload :: "pending \<Rightarrow> payload option" where
  "pendingPayload (Finished r) = None"
| "pendingPayload (AwaitsRead ev pl sessionId r) = Some pl"

fun isStoreCall :: "call \<Rightarrow> bool" where
  "isStoreCall StoreInit = True"
| "isStoreCall (StoreRead k) = True"
| "isStoreCall (StoreWrite k s) = True"
| "isStoreCall c = False"

fun isWrite :: "call \<Rightarrow> bool" where
  "isWrite (StoreWrite k s) = True"
| "isWrite c = False"

definition writes :: "'s state \<Rightarrow> call list" where
  "writes st = filter isWrite (calls st)"

text \<open>The calls that a step adds to the log, and the property that a step only appends
  calls of a given kind.\<close>

definition newCalls :: "'s state \<Rightarrow> 's state \<Rightarrow> call list" where
  "newCalls st st' = drop (length (calls st)) (calls st')"

definition onlyAdds :: "(call \<Rightarrow> bool) \<Rightarrow> 's state \<Rightarrow> 's state \<Rightarrow> bool" where
  "onlyAdds P st st' =
     (take (length (calls st)) (calls st') = calls st \<and> list_all P (newCalls st st'))"

text \<open>The calls that the resolution of one event with payload \<open>pl\<close> may make.\<close>

fun mapperCall :: "payload \<Rightarrow> call \<Rightarrow> bool" where
  "mapperCall pl (GetUniqueSessionKey pl' rc) = (pl' = pl)"
| "mapperCall pl (UpdateSession s pl') = (pl' = pl)"
| "mapperCall pl (StoreRead k) = True"
| "mapperCall pl (CreateContext ev sess) = True"
| "mapperCall pl c = False"

text \<open>The calls that the steps from \<^verbatim>\<open>mapRequestToEvents\<close> to the contexts may make,
  for a body mapped to the given events.\<close>

definition buildCall :: "jsval \<Rightarrow> jsval list \<Rightarrow> call \<Rightarrow> bool" where
  "buildCall body events c =
     (c = MapRequestToEvents body \<or>
      (\<exists>ev \<in> set events. mapperCall (payloadFor (length events) body ev) c))"

text \<open>The rule of the specification for the payload of \<^verbatim>\<open>getUniqueSessionKey\<close> and
  \<^verbatim>\<open>updateSession\<close>: the whole body when there is exactly one event, otherwise one of the
  events.\<close>

definition payloadRule :: "jsval \<Rightarrow> jsval list \<Rightarrow> call \<Rightarrow> bool" where
  "payloadRule body events c =
     (case payloadOf c of
        None \<Rightarrow> True
      | Some pl \<Rightarrow>
          (if length events = 1 then pl = WholeBody body
           else (\<exists>ev \<in> set events. pl = SingleEvent ev)))"

subsection \<open>A small bot\<close>

text \<open>
  An in-memory store, a connector that finds the events under \<^verbatim>\<open>events\<close> and the session
  key under \<^verbatim>\<open>user\<close>, and a few actions: \<^verbatim>\<open>reply\<close> throws on an event marked \<^verbatim>\<open>bad\<close>,
  and otherwise answers and continues with \<^verbatim>\<open>done\<close>; \<^verbatim>\<open>loop\<close> returns itself; \<^verbatim>\<open>ask\<close>
  continues with \<^verbatim>\<open>tell\<close>, which returns a string.
\<close>

definition memoryStore :: "(jsval \<times> session) list SessionStore" where
  "memoryStore =
     \<lparr>store_init = (\<lambda>s. Inr s),
      store_read = (\<lambda>s k. Inr (map_of s (JStr k))),
      store_write = (\<lambda>s k v. Inr (AList.update k v s))\<rparr>"

definition field :: "string \<Rightarrow> jsval \<Rightarrow> jsval" where
  "field k v =
     (case v of
        JObj kvs \<Rightarrow> (case map_of kvs k of None \<Rightarrow> Undefined | Some x \<Rightarrow> x)
      | _ \<Rightarrow> Undefined)"

definition eventOf :: "payload \<Rightarrow> jsval" where
  "eventOf pl =
     (case pl of
        SingleEvent e \<Rightarrow> e
      | WholeBody b \<Rightarrow> (case field ''events'' b of JArr [e] \<Rightarrow> e | _ \<Rightarrow> b))"

definition demoConnector :: connector where
  "demoConnector =
     \<lparr>platform = ''demo'',
      mapRequestToEvents =
        (\<lambda>body. case field ''events'' body of JArr evs \<Rightarrow> Inr evs | _ \<Rightarrow> Inr [body]),
      getUniqueSessionKey =
        (\<lambda>pl rc. case field ''user'' (eventOf pl) of JStr u \<Rightarrow> Inr (Some u) | _ \<Rightarrow> Inr None),
      updateSession =
        (\<lambda>s pl. Inr [Assign ''user'' (field ''user'' (eventOf pl)),
                       Assign ''id'' (JStr ''other''), Delete ''platform'']),
      newResponse = Undefined,
      handlerDidEnd = None\<rparr>"

definition demoActions :: "string behaviour" where
  "demoActions f c p =
     (if f = ''reply'' then
        (if truthy (field ''bad'' (event c)) then ([], Inl (Thrown (JStr ''boom'')))
         else ([SetResponse (JStr ''ok''), OnSession (Assign ''count'' (JNum 1))],
               Inr (Action ''done'')))
      else if f = ''done'' then
        ([OnSession (Assign ''id'' (JStr ''changed''))], Inr (Value Undefined))
      else if f = ''loop'' then ([], Inr (Action ''loop''))
      else if f = ''ask'' then ([], Inr (Action ''tell''))
      else if f = ''tell'' then ([], Inr (Value (JStr ''x'')))
      else ([], Inr (Value Undefined)))"

definition demoBot :: "bool \<Rightarrow> ((jsval \<times> session) list, string) Bot" where
  "demoBot blocking_mode =
     \<lparr>sessions = memoryStore, connector_of = demoConnector, handler = Some ''reply'',
      errorHandler = None, initialState = JObj [], plugins = [], sync = blocking_mode\<rparr>"

definition demoEnv :: "string env" where
  "demoEnv = \<lparr>camelcaseKeysDeep = (\<lambda>b. b), behaviour_of = demoActions, Date_now = (\<lambda>i. 1000)\<rparr>"

definition freshState :: "(jsval \<times> session) list state" where
  "freshState = \<lparr>initialized = False, store = [], calls = [], console = []\<rparr>"

definition goodEvent :: jsval where
  "goodEvent = JObj [(''user'', JStr ''bob'')]"

definition badEvent :: jsval where
  "badEvent = JObj [(''user'', JStr ''ann''), (''bad'', JBool True)]"

definition oneEvent :: jsval where
  "oneEvent = JObj [(''events'', JArr [goodEvent])]"

definition twoEvents :: jsval where
  "twoEvents = JObj [(''events'', JArr [goodEvent, badEvent])]"

definition noEvents :: jsval where
  "noEvents = JObj [(''events'', JArr [])]"

text \<open>The state after the store's initialization, the session of \<^verbatim>\<open>bob\<close> as it is fixed
  and as the connector leaves it, and the contexts of the two events.\<close>

definition demoReady :: "(jsval \<times> session) list state" where
  "demoReady = \<lparr>initialized = True, store = [], calls = [StoreInit], console = []\<rparr>"

definition bobFixed :: session where
  "bobFixed =
     \<lparr>entries = [(''id'', JStr ''demo:bob''), (''platform'', JStr ''demo'')],
      readonly = [''platform'', ''id'']\<rparr>"

definition bobSession :: session where
  "bobSession =
     \<lparr>entries = [(''id'', JStr ''demo:bob''), (''platform'', JStr ''demo''),
                 (''user'', JStr ''bob'')],
      readonly = [''platform'', ''id'']\<rparr>"

definition annSession :: session where
  "annSession =
     \<lparr>entries = [(''id'', JStr ''demo:ann''), (''platform'', JStr ''demo''),
                 (''user'', JStr ''ann'')],
      readonly = [''platform'', ''id'']\<rparr>"

definition bobContext :: Context where
  "bobContext = createContext demoConnector goodEvent (Some bobSession) (JObj []) None"

definition annContext :: Context where
  "annContext = createContext demoConnector badEvent (Some annSession) (JObj []) None"

definition demoTask :: "Context \<Rightarrow> string task" where
  "demoTask c = runTask 2 demoActions None ''reply'' None c"

definition demoProps :: props where
  "demoProps = [(''name'', PVal (JStr ''x''))]"

definition demoContext :: Context where
  "demoContext =
     createContext demoConnector goodEvent None (JObj []) None"

text \<open>A store whose read fails for \<^verbatim>\<open>demo:bob\<close>, and the bot that uses it.\<close>

definition brokenStore :: "(jsval \<times> session) list SessionStore" where
  "brokenStore =
     memoryStore\<lparr>store_read :=
       (\<lambda>s k. if k = ''demo:bob'' then Inl (Thrown (JStr ''down'')) else Inr (map_of s (JStr k)))\<rparr>"

definition brokenBot :: "((jsval \<times> session) list, string) Bot" where
  "brokenBot = (demoBot True)\<lparr>sessions := brokenStore\<rparr>"

definition annFixed :: session where
  "annFixed =
     \<lparr>entries = [(''id'', JStr ''demo:ann''), (''platform'', JStr ''demo'')],
      readonly = [''platform'', ''id'']\<rparr>"

section \<open>Properties\<close>

subsection \<open>The chain of actions\<close>

lemma run_loop_chain:
  "run_loop n call (Action g) s = (s', Returned v) \<Longrightarrow> chain call g [] s s' v"
proof (induction n arbitrary: g s)
  case 0
  then show ?case by simp
next
  case (Suc n)
  obtain s1 r where inv: "invoke call g [] s = (s1, r)" by (cases "invoke call g [] s")
  show ?case
  proof (cases r)
    case (Inl e)
    with inv Suc.prems show ?thesis by simp
  next
    case (Inr nd)
    show ?thesis
    proof (cases nd)
      case (Value w)
      with inv Inr Suc.prems show ?thesis by (auto intro: chain_end)
    next
      case (Action h)
      with inv Inr Suc.prems have "run_loop n call (Action h) s1 = (s', Returned v)" by simp
      from Suc.IH[OF this] inv Inr Action show ?thesis by (auto intro: chain_step)
    qed
  qed
qed

lemma chain_run_loop:
  "chain call f p s s' v \<Longrightarrow>
   \<exists>n. \<forall>m\<ge>n. (case invoke call f p s of
                  (s1, Inl e) \<Rightarrow> (s1, Threw e)
                | (s1, Inr nd) \<Rightarrow> run_loop m call nd s1) = (s', Returned v)"
proof (induction rule: chain.induct)
  case (chain_end call f p s s' v)
  then show ?case by simp
next
  case (chain_step call f p s s1 g s' v)
  then obtain n where n:
    "\<forall>m\<ge>n. (case invoke call g [] s1 of
                (s2, Inl e) \<Rightarrow> (s2, Threw e)
              | (s2, Inr nd) \<Rightarrow> run_loop m call nd s2) = (s', Returned v)"
    by blast
  have "\<forall>m\<ge>Suc n. run_loop m call (Action g) s1 = (s', Returned v)"
  proof (intro allI impI)
    fix m assume "Suc n \<le> m"
    then obtain m' where "m = Suc m'" "n \<le> m'" by (cases m) auto
    with n show "run_loop m call (Action g) s1 = (s', Returned v)" by simp
  qed
  with chain_step.hyps(1) show ?case by auto
qed

lemma invoke_invoked: "invoke call f p s = (s', r) \<Longrightarrow> rs_invoked s' = rs_invoked s @ [(f, p)]"
  by (auto simp: invoke_def split: prod.splits)

lemma chain_invoked:
  "chain call f p s s' v \<Longrightarrow>
   \<exists>gs. rs_invoked s' = rs_invoked s @ (f, p) # map (\<lambda>g. (g, [])) gs"
proof (induction rule: chain.induct)
  case (chain_end call f p s s' v)
  then have "rs_invoked s' = rs_invoked s @ (f, p) # map (\<lambda>g. (g, [])) []"
    by (simp add: invoke_invoked)
  then show ?case by blast
next
  case (chain_step call f p s s1 g s' v)
  from chain_step.hyps(1) have "rs_invoked s1 = rs_invoked s @ [(f, p)]"
    by (rule invoke_invoked)
  with chain_step.IH obtain gs where
    "rs_invoked s' = rs_invoked s @ (f, p) # map (\<lambda>g. (g, [])) (g # gs)" by auto
  then show ?case by blast
qed

lemma demo_run:
  "run 2 demoActions (Action ''reply'') demoContext demoProps =
     (\<lparr>rs_context = demoContext\<lparr>response := JStr ''ok''\<rparr>,
       rs_invoked = [(''reply'', demoProps), (''done'', [])],
       rs_ops = [SetResponse (JStr ''ok''), OnSession (Assign ''count'' (JNum 1)),
                 OnSession (Assign ''id'' (JStr ''changed''))]\<rparr>, Returned Undefined)"
  by code_simp

text \<open>
  C3, as amended. The function returned by \<^verbatim>\<open>run\<close> invokes the initial action with the
  properties it is given and every later action of the chain, each the result of the
  invocation before it, with empty properties, in order, until an invocation gives a value
  that is not an action; it then returns, and what it returns is that value itself
  (\<^verbatim>\<open>undefined\<close> only when the last action returns nothing). In the other direction:
  whenever the chain that starts at the initial action ends with a value, the function
  returns that value, for every fuel from some bound on, with exactly the invocations of the
  chain made.
\<close>

theorem run_follows_the_chain:
  "(run n call (Action a) c p = (s', Returned v) \<longrightarrow>
      chain call a p (start c) s' v \<and>
      (\<exists>gs. rs_invoked s' = (a, p) # map (\<lambda>g. (g, [])) gs))
   \<and> (chain call a p (start c) s' v \<longrightarrow>
        (\<exists>k. \<forall>m\<ge>k. run m call (Action a) c p = (s', Returned v)))"
proof (intro conjI impI)
  assume r: "run n call (Action a) c p = (s', Returned v)"
  obtain s1 res where inv: "invoke call a p (start c) = (s1, res)"
    by (cases "invoke call a p (start c)")
  show dc: "chain call a p (start c) s' v"
  proof (cases res)
    case (Inl e)
    with r inv show ?thesis by (simp add: run_def)
  next
    case (Inr nd)
    show ?thesis
    proof (cases nd)
      case (Value w)
      with r inv Inr show ?thesis by (auto simp: run_def intro: chain_end)
    next
      case (Action g)
      with r inv Inr have "run_loop n call (Action g) s1 = (s', Returned v)"
        by (simp add: run_def)
      from run_loop_chain[OF this] inv Inr Action show ?thesis by (auto intro: chain_step)
    qed
  qed
  from chain_invoked[OF dc]
  show "\<exists>gs. rs_invoked s' = (a, p) # map (\<lambda>g. (g, [])) gs" by (simp add: start_def)
next
  assume "chain call a p (start c) s' v"
  from chain_run_loop[OF this] show "\<exists>k. \<forall>m\<ge>k. run m call (Action a) c p = (s', Returned v)"
    by (simp add: run_def)
qed

theorem run_follows_the_chain_witness:
  "run 2 demoActions (Action ''reply'') demoContext demoProps =
     (\<lparr>rs_context = demoContext\<lparr>response := JStr ''ok''\<rparr>,
       rs_invoked = [(''reply'', demoProps), (''done'', [])],
       rs_ops = [SetResponse (JStr ''ok''), OnSession (Assign ''count'' (JNum 1)),
                 OnSession (Assign ''id'' (JStr ''changed''))]\<rparr>, Returned Undefined)
   \<and> chain demoActions ''reply'' demoProps (start demoContext)
       \<lparr>rs_context = demoContext\<lparr>response := JStr ''ok''\<rparr>,
        rs_invoked = [(''reply'', demoProps), (''done'', [])],
        rs_ops = [SetResponse (JStr ''ok''), OnSession (Assign ''count'' (JNum 1)),
                  OnSession (Assign ''id'' (JStr ''changed''))]\<rparr> Undefined"
  using run_follows_the_chain[of 2 demoActions "''reply''" demoContext demoProps _ Undefined]
    demo_run
  by simp

text \<open>An action that continues with an action that returns a string: the run returns the
  string, not void.\<close>

theorem run_returns_the_last_value:
  "run 2 demoActions (Action ''ask'') demoContext demoProps =
     (\<lparr>rs_context = demoContext,
       rs_invoked = [(''ask'', demoProps), (''tell'', [])],
       rs_ops = []\<rparr>, Returned (JStr ''x''))
   \<and> JStr ''x'' \<noteq> Undefined"
  by code_simp

subsection \<open>The call log\<close>

lemma onlyAdds_refl: "onlyAdds P st st"
  by (simp add: onlyAdds_def newCalls_def)

lemma onlyAdds_same: "calls st' = calls st \<Longrightarrow> onlyAdds P st st'"
  by (simp add: onlyAdds_def newCalls_def)

lemma onlyAdds_append: "onlyAdds P st st' \<longleftrightarrow> (\<exists>new. calls st' = calls st @ new \<and> list_all P new)"
proof
  assume a: "onlyAdds P st st'"
  then have "calls st' = calls st @ newCalls st st'"
    unfolding onlyAdds_def newCalls_def by (metis append_take_drop_id)
  with a show "\<exists>new. calls st' = calls st @ new \<and> list_all P new"
    unfolding onlyAdds_def by blast
next
  assume "\<exists>new. calls st' = calls st @ new \<and> list_all P new"
  then show "onlyAdds P st st'" by (auto simp: onlyAdds_def newCalls_def)
qed

lemma onlyAdds_trans: "onlyAdds P st st1 \<Longrightarrow> onlyAdds P st1 st2 \<Longrightarrow> onlyAdds P st st2"
  unfolding onlyAdds_append by auto

lemma onlyAdds_weaken: "onlyAdds P st st' \<Longrightarrow> (\<And>c. P c \<Longrightarrow> Q c) \<Longrightarrow> onlyAdds Q st st'"
  unfolding onlyAdds_append by (auto simp: list_all_iff)

lemma onlyAdds_logCall: "P c \<Longrightarrow> onlyAdds P st (logCall c st)"
  unfolding onlyAdds_append by (simp add: logCall_def)

lemma newCalls_trans:
  "onlyAdds P st st1 \<Longrightarrow> onlyAdds Q st1 st2 \<Longrightarrow> newCalls st st2 = newCalls st st1 @ newCalls st1 st2"
  unfolding onlyAdds_append newCalls_def by auto

lemma initSessionStore_calls:
  "initSessionStore sto st = (st', r) \<Longrightarrow> onlyAdds (\<lambda>c. c = StoreInit) st st'"
  unfolding onlyAdds_append
  by (auto simp: initSessionStore_def initSessionStore_enter_def initSessionStore_resume_def
      logCall_def split: if_splits sum.splits)

lemma resolveSession_calls:
  "resolveSession self pl k st = (st', r) \<Longrightarrow> onlyAdds (mapperCall pl) st st'"
  unfolding onlyAdds_append
  by (auto simp: resolveSession_def logCall_def Let_def split: sum.splits)

lemma resolveIfKey_calls:
  "resolveIfKey self pl key st = (st', r) \<Longrightarrow> onlyAdds (mapperCall pl) st st'"
  by (auto simp: resolveIfKey_def onlyAdds_refl resolveSession_calls
      split: option.splits if_splits prod.splits sum.splits)

lemma mapper_calls:
  assumes "mapper self n body rc st ev = (st', r)"
  shows "onlyAdds (mapperCall (payloadFor n body ev)) st st'"
proof -
  let ?pl = "payloadFor n body ev"
  let ?st1 = "logCall (GetUniqueSessionKey ?pl rc) st"
  have a: "onlyAdds (mapperCall ?pl) st ?st1" by (simp add: onlyAdds_logCall)
  show ?thesis
  proof (cases "getUniqueSessionKey (connector_of self) ?pl rc")
    case (Inl e)
    with assms a show ?thesis by (simp add: mapper_def Let_def)
  next
    case (Inr key)
    obtain st2 res where rk: "resolveIfKey self ?pl key ?st1 = (st2, res)"
      by (cases "resolveIfKey self ?pl key ?st1")
    from resolveIfKey_calls[OF rk] a have b: "onlyAdds (mapperCall ?pl) st st2"
      by (rule onlyAdds_trans[rotated])
    show ?thesis
    proof (cases res)
      case (Inl e)
      with assms Inr rk b show ?thesis by (simp add: mapper_def Let_def)
    next
      case (Inr sess)
      with assms \<open>getUniqueSessionKey (connector_of self) ?pl rc = Inr key\<close> rk
      have "st' = logCall (CreateContext ev sess) st2" by (simp add: mapper_def Let_def)
      moreover have "onlyAdds (mapperCall ?pl) st2 (logCall (CreateContext ev sess) st2)"
        by (simp add: onlyAdds_logCall)
      ultimately show ?thesis using b by (simp add: onlyAdds_trans[OF b])
    qed
  qed
qed

lemma onlyAdds_member: "onlyAdds P st st' \<Longrightarrow> c \<in> set (calls st) \<Longrightarrow> c \<in> set (calls st')"
  unfolding onlyAdds_append by auto

lemma onlyAdds_new_member:
  "onlyAdds P st st' \<Longrightarrow> c \<in> set (newCalls st st') \<Longrightarrow> c \<in> set (calls st')"
  unfolding onlyAdds_append newCalls_def by auto

lemma mapper_in_two_steps:
  "mapper self k body rc st ev =
     (case mapperStart self k body rc st ev of (st1, p) \<Rightarrow> mapperResume self rc st1 p)"
  by (auto simp: mapper_def mapperStart_def mapperResume_def resolveIfKey_def resolveSession_def
      Let_def logCall_def split: sum.splits option.splits)

lemma mapperStart_calls:
  assumes "mapperStart self k body rc st ev = (st', p)"
  shows "onlyAdds (mapperCall (payloadFor k body ev)) st st'"
    and "pendingPayload p = None \<or> pendingPayload p = Some (payloadFor k body ev)"
    and "GetUniqueSessionKey (payloadFor k body ev) rc \<in> set (newCalls st st')"
  using assms
  unfolding onlyAdds_append newCalls_def
  by (auto simp: mapperStart_def Let_def logCall_def split: sum.splits option.splits if_splits)

lemma mapperResume_calls:
  assumes "mapperResume self rc st p = (st', r)"
    and "pendingPayload p = None \<or> pendingPayload p = Some pl"
  shows "onlyAdds (mapperCall pl) st st'"
proof (cases p)
  case (Finished x)
  with assms(1) show ?thesis by (simp add: mapperResume_def onlyAdds_refl)
next
  case (AwaitsRead ev pl' sessionId x)
  with assms(2) have "pl' = pl" by simp
  with assms(1) AwaitsRead show ?thesis
    unfolding onlyAdds_append
    by (auto simp: mapperResume_def Let_def logCall_def split: sum.splits)
qed

lemma takeNext_set:
  assumes "takeNext settled qs = Some (q, qs')"
  shows "set qs = insert q (set qs')"
proof (cases "find (\<lambda>r. settled (snd r)) qs")
  case None
  with assms show ?thesis by (auto simp: takeNext_def split: list.splits)
next
  case (Some r)
  then have m: "r \<in> set qs" by (auto simp: find_Some_iff)
  from assms Some have e: "q = r" "qs' = remove1 r qs"
    by (auto simp: takeNext_def split: list.splits)
  have "set qs \<subseteq> insert r (set (remove1 r qs))"
  proof
    fix x assume "x \<in> set qs"
    then show "x \<in> insert r (set (remove1 r qs))" by (cases "x = r") simp_all
  qed
  moreover have "set (remove1 r qs) \<subseteq> set qs" by (rule set_remove1_subset)
  ultimately show ?thesis using m e by auto
qed

lemma takeNext_None: "takeNext settled qs = None \<Longrightarrow> qs = []"
  by (cases qs) (simp_all add: takeNext_def split: option.splits)

lemma startAll_calls:
  assumes "\<And>s x s' p. x \<in> snd ` set items \<Longrightarrow> launch s x = (s', p) \<Longrightarrow> onlyAdds P s s' \<and> Q p"
  shows "startAll launch items st = (st', queue) \<Longrightarrow>
         onlyAdds P st st' \<and> (\<forall>q \<in> set queue. Q (snd q))"
  using assms
proof (induction items arbitrary: st st' queue)
  case Nil
  then show ?case by (simp add: onlyAdds_refl)
next
  case (Cons a items)
  obtain i x where a: "a = (i, x)" by (cases a)
  obtain st1 p where l: "launch st x = (st1, p)" by (cases "launch st x")
  obtain st2 ps where r: "startAll launch items st1 = (st2, ps)"
    by (cases "startAll launch items st1")
  have h: "onlyAdds P st st1 \<and> Q p" using Cons.prems(2)[of x st st1 p] a l by simp
  have "onlyAdds P st1 st2 \<and> (\<forall>q \<in> set ps. Q (snd q))"
  proof (rule Cons.IH[OF r])
    fix s y s' p'
    assume "y \<in> snd ` set items" "launch s y = (s', p')"
    then show "onlyAdds P s s' \<and> Q p'" using Cons.prems(2)[of y s s' p'] by auto
  qed
  moreover from Cons.prems(1) a l r have "st' = st2" "queue = (i, p) # ps" by simp_all
  ultimately show ?case using h by (auto intro: onlyAdds_trans)
qed

lemma drain_calls:
  "drain settled resume launch queue rest rej acc st = (st2, res, st3) \<Longrightarrow>
   (\<And>s x s' p. x \<in> snd ` set rest \<Longrightarrow> launch s x = (s', p) \<Longrightarrow> onlyAdds P s s' \<and> Q p) \<Longrightarrow>
   (\<And>s p s' r. Q p \<Longrightarrow> resume s p = (s', r) \<Longrightarrow> onlyAdds P s s') \<Longrightarrow>
   \<forall>q \<in> set queue. Q (snd q) \<Longrightarrow> onlyAdds P base st \<Longrightarrow>
   (\<forall>e s. rej = Some (e, s) \<longrightarrow> onlyAdds P base s) \<Longrightarrow>
   onlyAdds P base st2 \<and> onlyAdds P base st3"
proof (induction settled resume launch queue rest rej acc st rule: drain.induct)
  case (1 settled resume launch queue rest rej acc st)
  note d = "1.prems"(1) and L = "1.prems"(2) and R = "1.prems"(3) and q = "1.prems"(4)
    and b = "1.prems"(5) and rj = "1.prems"(6)
  show ?case
  proof (cases "takeNext settled queue")
    case None
    with d have "(st2, res, st3) =
        (case rej of None \<Rightarrow> (st, Inr (map snd (sort_key fst acc)), st)
         | Some (e, st0) \<Rightarrow> (st0, Inl e, st))"
      by (subst (asm) drain.simps) simp
    with b rj show ?thesis by (cases rej) auto
  next
    case (Some x)
    obtain i p queue' where x: "x = ((i, p), queue')" by (cases x) auto
    note tn = Some[unfolded x]
    from takeNext_set[OF tn] q have qp: "Q p" and q': "\<forall>q \<in> set queue'. Q (snd q)" by auto
    obtain st1 r where rs: "resume st p = (st1, r)" by (cases "resume st p")
    from b R[OF qp rs] have b1: "onlyAdds P base st1" by (rule onlyAdds_trans)
    show ?thesis
    proof (cases r)
      case (Inl e)
      let ?rej = "case rej of None \<Rightarrow> Some (e, st1) | Some r \<Rightarrow> Some r"
      from d tn rs Inl
      have d': "drain settled resume launch queue' rest ?rej acc st1 = (st2, res, st3)"
        by (subst (asm) drain.simps) simp
      have rj': "\<forall>e' s. ?rej = Some (e', s) \<longrightarrow> onlyAdds P base s"
        using rj b1 by (cases rej) auto
      from "1.IH"(1)[OF tn refl refl rs[symmetric] Inl d' L R q' b1 rj'] show ?thesis .
    next
      case (Inr y)
      show ?thesis
      proof (cases rej)
        case (Some r0)
        from d tn rs Inr Some
        have d': "drain settled resume launch queue' rest (Some r0) acc st1 = (st2, res, st3)"
          by (subst (asm) drain.simps) simp
        have rj': "\<forall>e' s. Some r0 = Some (e', s) \<longrightarrow> onlyAdds P base s" using rj Some by simp
        from "1.IH"(4)[OF tn refl refl rs[symmetric] Inr Some d' L R q' b1 rj'] show ?thesis .
      next
        case None
        show ?thesis
        proof (cases rest)
          case Nil
          from d tn rs Inr None Nil
          have d': "drain settled resume launch queue' [] None ((i, y) # acc) st1 = (st2, res, st3)"
            by (subst (asm) drain.simps) simp
          have L': "\<And>s x s' p. x \<in> snd ` set [] \<Longrightarrow> launch s x = (s', p) \<Longrightarrow> onlyAdds P s s' \<and> Q p"
            by simp
          have rj': "\<forall>e' s. None = Some (e', s) \<longrightarrow> onlyAdds P base s"
            by simp
          from "1.IH"(2)[OF tn refl refl rs[symmetric] Inr None Nil d' L' R q' b1 rj'] show ?thesis .
        next
          case (Cons a rest')
          obtain j z where a: "a = (j, z)" by (cases a)
          obtain st2' p' where l: "launch st1 z = (st2', p')" by (cases "launch st1 z")
          have "z \<in> snd ` set rest" using Cons a by force
          from L[OF this l] have la: "onlyAdds P st1 st2'" and qp': "Q p'" by simp_all
          from b1 la have b2: "onlyAdds P base st2'" by (rule onlyAdds_trans)
          from d tn rs Inr None Cons a l
          have d': "drain settled resume launch (queue' @ [(j, p')]) rest' None ((i, y) # acc) st2'
                      = (st2, res, st3)"
            by (subst (asm) drain.simps) simp
          have L': "\<And>s x s' p. x \<in> snd ` set rest' \<Longrightarrow> launch s x = (s', p) \<Longrightarrow> onlyAdds P s s' \<and> Q p"
          proof -
            fix s x s' p assume "x \<in> snd ` set rest'" "launch s x = (s', p)"
            moreover from this(1) Cons have "x \<in> snd ` set rest" by auto
            ultimately show "onlyAdds P s s' \<and> Q p" using L[of x s s' p] by blast
          qed
          have q'': "\<forall>q \<in> set (queue' @ [(j, p')]). Q (snd q)" using q' qp' by auto
          have rj': "\<forall>e' s. None = Some (e', s) \<longrightarrow> onlyAdds P base s"
            by simp
          from "1.IH"(3)[OF tn refl refl rs[symmetric] Inr None Cons[unfolded a] refl l[symmetric] d'
              L' R q'' b2 rj']
          show ?thesis .
        qed
      qed
    qed
  qed
qed

lemma pMap_calls:
  assumes L: "\<And>s x s' p. x \<in> set xs \<Longrightarrow> launch s x = (s', p) \<Longrightarrow> onlyAdds P s s' \<and> Q p"
    and R: "\<And>s p s' r. Q p \<Longrightarrow> resume s p = (s', r) \<Longrightarrow> onlyAdds P s s'"
    and p: "pMap k settled resume launch xs st = (st2, res, st3)"
  shows "onlyAdds P st st2 \<and> onlyAdds P st st3"
proof -
  obtain st1 queue where s: "startAll launch (take k (enumerate 0 xs)) st = (st1, queue)"
    by (cases "startAll launch (take k (enumerate 0 xs)) st")
  have sn: "snd ` set (enumerate 0 xs) = set xs"
    by (metis list.set_map map_snd_enumerate)
  have a: "onlyAdds P st st1 \<and> (\<forall>q \<in> set queue. Q (snd q))"
  proof (rule startAll_calls[OF _ s])
    fix s x s' p
    assume "x \<in> snd ` set (take k (enumerate 0 xs))" "launch s x = (s', p)"
    moreover have "set (take k (enumerate 0 xs)) \<subseteq> set (enumerate 0 xs)" by (rule set_take_subset)
    ultimately show "onlyAdds P s s' \<and> Q p" using L[of x s s' p] sn by blast
  qed
  from p s have d: "drain settled resume launch queue (drop k (enumerate 0 xs)) None [] st1
                     = (st2, res, st3)"
    by (simp add: pMap_def)
  show ?thesis
  proof (rule drain_calls[OF d])
    fix s x s' p
    assume "x \<in> snd ` set (drop k (enumerate 0 xs))" "launch s x = (s', p)"
    moreover have "set (drop k (enumerate 0 xs)) \<subseteq> set (enumerate 0 xs)" by (rule set_drop_subset)
    ultimately show "onlyAdds P s s' \<and> Q p" using L[of x s s' p] sn by blast
  next
    fix s p s' r assume "Q p" "resume s p = (s', r)"
    then show "onlyAdds P s s'" by (rule R)
  qed (use a in auto)
qed

lemma newCalls_later:
  assumes "onlyAdds P base s" and "onlyAdds Q s s'"
  shows "set (newCalls base s) \<subseteq> set (newCalls base s')"
    and "set (newCalls s s') \<subseteq> set (newCalls base s')"
  using newCalls_trans[OF assms] by auto

lemma drain_rejected:
  "drain settled resume launch queue rest rej acc st = (st2, res, st3) \<Longrightarrow> rej = Some r0 \<Longrightarrow>
   \<exists>e. res = Inl e"
proof (induction settled resume launch queue rest rej acc st arbitrary: r0 rule: drain.induct)
  case (1 settled resume launch queue rest rej acc st)
  note d = "1.prems"(1) and rj = "1.prems"(2)
  show ?case
  proof (cases "takeNext settled queue")
    case None
    with d rj show ?thesis by (subst (asm) drain.simps) (auto split: prod.splits)
  next
    case (Some x)
    obtain i p queue' where x: "x = ((i, p), queue')" by (cases x) auto
    note tn = Some[unfolded x]
    obtain st1 r where rs: "resume st p = (st1, r)" by (cases "resume st p")
    show ?thesis
    proof (cases r)
      case (Inl e)
      from d tn rs Inl rj
      have d': "drain settled resume launch queue' rest
                  (case rej of None \<Rightarrow> Some (e, st1) | Some r \<Rightarrow> Some r) acc st1 = (st2, res, st3)"
        by (subst (asm) drain.simps) simp
      from "1.IH"(1)[OF tn refl refl rs[symmetric] Inl d', of r0] rj show ?thesis by simp
    next
      case (Inr y)
      from d tn rs Inr rj
      have d': "drain settled resume launch queue' rest (Some r0) acc st1 = (st2, res, st3)"
        by (subst (asm) drain.simps) simp
      from "1.IH"(4)[OF tn refl refl rs[symmetric] Inr rj d' refl] show ?thesis .
    qed
  qed
qed

text \<open>On success: nothing was left in flight, and every item was started.\<close>

lemma drain_success:
  "drain settled resume launch queue rest rej acc st = (st2, Inr ys, st3) \<Longrightarrow>
   (\<And>s x s' p. launch s x = (s', p) \<Longrightarrow> onlyAdds T s s' \<and> g x \<in> set (newCalls s s')) \<Longrightarrow>
   (\<And>s p s' r. resume s p = (s', r) \<Longrightarrow> onlyAdds T s s') \<Longrightarrow>
   queue \<noteq> [] \<or> rest = [] \<Longrightarrow> onlyAdds T base st \<Longrightarrow>
   st3 = st2 \<and> onlyAdds T base st2 \<and> (\<forall>x \<in> snd ` set rest. g x \<in> set (newCalls base st2))"
proof (induction settled resume launch queue rest rej acc st arbitrary: base rule: drain.induct)
  case (1 settled resume launch queue rest rej acc st)
  note d = "1.prems"(1) and L = "1.prems"(2) and R = "1.prems"(3) and ne = "1.prems"(4)
    and b = "1.prems"(5)
  show ?case
  proof (cases "takeNext settled queue")
    case None
    from takeNext_None[OF None] ne have "rest = []" by simp
    moreover from d None have "st3 = st2 \<and> st2 = st"
      by (subst (asm) drain.simps) (auto split: option.splits prod.splits)
    ultimately show ?thesis using b by simp
  next
    case (Some x)
    obtain i p queue' where x: "x = ((i, p), queue')" by (cases x) auto
    note tn = Some[unfolded x]
    obtain st1 r where rs: "resume st p = (st1, r)" by (cases "resume st p")
    from b R[OF rs] have b1: "onlyAdds T base st1" by (rule onlyAdds_trans)
    show ?thesis
    proof (cases r)
      case (Inl e)
      from d tn rs Inl
      have "drain settled resume launch queue' rest
                  (case rej of None \<Rightarrow> Some (e, st1) | Some r \<Rightarrow> Some r) acc st1 = (st2, Inr ys, st3)"
        by (subst (asm) drain.simps) simp
      from drain_rejected[OF this] show ?thesis by (cases rej) auto
    next
      case (Inr y)
      show ?thesis
      proof (cases rej)
        case (Some r0)
        from d tn rs Inr Some
        have "drain settled resume launch queue' rest (Some r0) acc st1 = (st2, Inr ys, st3)"
          by (subst (asm) drain.simps) simp
        from drain_rejected[OF this refl] show ?thesis by simp
      next
        case None
        show ?thesis
        proof (cases rest)
          case Nil
          from d tn rs Inr None Nil
          have d': "drain settled resume launch queue' [] None ((i, y) # acc) st1 = (st2, Inr ys, st3)"
            by (subst (asm) drain.simps) simp
          from "1.IH"(2)[OF tn refl refl rs[symmetric] Inr None Nil d' L R _ b1] Nil
          show ?thesis by simp
        next
          case (Cons a rest')
          obtain j z where a: "a = (j, z)" by (cases a)
          obtain st2' p' where l: "launch st1 z = (st2', p')" by (cases "launch st1 z")
          from L[OF l] have la: "onlyAdds T st1 st2'" and gz: "g z \<in> set (newCalls st1 st2')"
            by simp_all
          from b1 la have b2: "onlyAdds T base st2'" by (rule onlyAdds_trans)
          from newCalls_later(2)[OF b1 la] gz have gz2: "g z \<in> set (newCalls base st2')" by blast
          from d tn rs Inr None Cons a l
          have d': "drain settled resume launch (queue' @ [(j, p')]) rest' None ((i, y) # acc) st2'
                      = (st2, Inr ys, st3)"
            by (subst (asm) drain.simps) simp
          have ne': "queue' @ [(j, p')] \<noteq> [] \<or> rest' = []" by simp
          from "1.IH"(3)[OF tn refl refl rs[symmetric] Inr None Cons[unfolded a] refl l[symmetric] d'
              L R ne' b2]
          have ih: "st3 = st2" "onlyAdds T base st2"
            "\<forall>x \<in> snd ` set rest'. g x \<in> set (newCalls base st2)"
            by simp_all
          have "onlyAdds T st2' st2'" by (rule onlyAdds_refl)
          from "1.IH"(3)[OF tn refl refl rs[symmetric] Inr None Cons[unfolded a] refl l[symmetric] d'
              L R ne' this]
          have la2: "onlyAdds T st2' st2" by simp
          from newCalls_later(1)[OF b2 la2] gz2 have "g z \<in> set (newCalls base st2)" by blast
          with ih Cons a show ?thesis by auto
        qed
      qed
    qed
  qed
qed

lemma startAll_started:
  "startAll launch items st = (st', queue) \<Longrightarrow>
   (\<And>s x s' p. launch s x = (s', p) \<Longrightarrow> onlyAdds T s s' \<and> g x \<in> set (newCalls s s')) \<Longrightarrow>
   onlyAdds T st st' \<and> length queue = length items \<and>
   (\<forall>x \<in> snd ` set items. g x \<in> set (newCalls st st'))"
proof (induction items arbitrary: st st' queue)
  case Nil
  then show ?case by (simp add: onlyAdds_refl)
next
  case (Cons a items)
  obtain i x where a: "a = (i, x)" by (cases a)
  obtain st1 p where l: "launch st x = (st1, p)" by (cases "launch st x")
  obtain st2 ps where r: "startAll launch items st1 = (st2, ps)"
    by (cases "startAll launch items st1")
  from Cons.prems(2)[OF l] have la: "onlyAdds T st st1" and gx: "g x \<in> set (newCalls st st1)"
    by simp_all
  from Cons.IH[OF r Cons.prems(2)] have ih: "onlyAdds T st1 st2" "length ps = length items"
    "\<forall>x \<in> snd ` set items. g x \<in> set (newCalls st1 st2)" by simp_all
  from Cons.prems(1) a l r have e: "st' = st2" "queue = (i, p) # ps" by simp_all
  from newCalls_later[OF la ih(1)] gx ih(3)
  have "\<forall>y \<in> snd ` set (a # items). g y \<in> set (newCalls st st2)" using a by auto
  with e la ih show ?case by (auto intro: onlyAdds_trans)
qed

lemma pMap_success:
  assumes p: "pMap k settled resume launch xs st = (st2, Inr ys, st3)"
    and L: "\<And>s x s' p. launch s x = (s', p) \<Longrightarrow> onlyAdds T s s' \<and> g x \<in> set (newCalls s s')"
    and R: "\<And>s p s' r. resume s p = (s', r) \<Longrightarrow> onlyAdds T s s'"
    and k: "0 < k"
  shows "st3 = st2 \<and> (\<forall>x \<in> set xs. g x \<in> set (newCalls st st2))"
proof -
  obtain st1 queue where s: "startAll launch (take k (enumerate 0 xs)) st = (st1, queue)"
    by (cases "startAll launch (take k (enumerate 0 xs)) st")
  from startAll_started[where g = g and T = T, OF s L]
  have a: "onlyAdds T st st1" "length queue = length (take k (enumerate 0 xs))"
    "\<forall>x \<in> snd ` set (take k (enumerate 0 xs)). g x \<in> set (newCalls st st1)" by simp_all
  from p s have d: "drain settled resume launch queue (drop k (enumerate 0 xs)) None [] st1
                     = (st2, Inr ys, st3)"
    by (simp add: pMap_def)
  have ne: "queue \<noteq> [] \<or> drop k (enumerate 0 xs) = []"
  proof (cases xs)
    case Nil
    then show ?thesis by simp
  next
    case (Cons y ys')
    with a(2) k have "length queue \<noteq> 0" by simp
    then show ?thesis by auto
  qed
  from drain_success[where g = g and T = T, OF d L R ne a(1)]
  have b: "st3 = st2" "onlyAdds T st st2"
    "\<forall>x \<in> snd ` set (drop k (enumerate 0 xs)). g x \<in> set (newCalls st st2)" by simp_all
  from drain_success[where g = g and T = T and base = st1, OF d L R ne onlyAdds_refl]
  have c: "onlyAdds T st1 st2" by simp
  have sn: "snd ` set (enumerate 0 xs) = set xs"
    by (metis list.set_map map_snd_enumerate)
  have "g x \<in> set (newCalls st st2)" if "x \<in> set xs" for x
  proof -
    from that sn have "x \<in> snd ` set (take k (enumerate 0 xs) @ drop k (enumerate 0 xs))"
      by simp
    then consider "x \<in> snd ` set (take k (enumerate 0 xs))"
      | "x \<in> snd ` set (drop k (enumerate 0 xs))"
      by (auto simp del: append_take_drop_id)
    then show ?thesis
    proof cases
      case 1
      with a(3) newCalls_later(1)[OF a(1) c] show ?thesis by blast
    next
      case 2
      with b(3) show ?thesis by blast
    qed
  qed
  with b(1) show ?thesis by simp
qed

lemma mapperStart_appends:
  "mapperStart self k body rc s x = (s', p) \<Longrightarrow>
   onlyAdds (\<lambda>c. True) s s' \<and> GetUniqueSessionKey (payloadFor k body x) rc \<in> set (newCalls s s')"
  using mapperStart_calls(1,3)[of self k body rc s x s' p]
  by (auto intro: onlyAdds_weaken)

lemma mapperResume_appends:
  assumes "mapperResume self rc s p = (s', r)"
  shows "onlyAdds (\<lambda>c. True) s s'"
proof (cases "pendingPayload p")
  case None
  from mapperResume_calls[OF assms, of undefined] None show ?thesis
    by (auto intro: onlyAdds_weaken)
next
  case (Some pl)
  from mapperResume_calls[OF assms, of pl] Some show ?thesis
    by (auto intro: onlyAdds_weaken)
qed

lemma buildAll_failed_map:
  "mapRequestToEvents (connector_of self) body = Inl e \<Longrightarrow>
   buildAll self body rc st =
     (logCall (MapRequestToEvents body) st, Inl e, logCall (MapRequestToEvents body) st)"
  by (simp add: buildAll_def Let_def)

lemma buildAll_calls:
  assumes ev: "mapRequestToEvents (connector_of self) body = Inr events"
    and b: "buildAll self body rc st = (st2, r, st3)"
  shows "onlyAdds (buildCall body events) st st2 \<and> onlyAdds (buildCall body events) st st3"
proof -
  let ?st1 = "logCall (MapRequestToEvents body) st"
  let ?Q = "\<lambda>p. pendingPayload p = None \<or>
             (\<exists>x \<in> set events. pendingPayload p = Some (payloadFor (length events) body x))"
  have a: "onlyAdds (buildCall body events) st ?st1"
    by (simp add: onlyAdds_logCall buildCall_def)
  obtain s2 res s3 where p:
    "pMap 5 isFinished (mapperResume self rc) (mapperStart self (length events) body rc) events ?st1
       = (s2, res, s3)"
    by (cases "pMap 5 isFinished (mapperResume self rc)
                 (mapperStart self (length events) body rc) events ?st1") auto
  have "onlyAdds (buildCall body events) ?st1 s2 \<and> onlyAdds (buildCall body events) ?st1 s3"
  proof (rule pMap_calls[where Q = ?Q, OF _ _ p])
    fix s x s' q
    assume x: "x \<in> set events" and l: "mapperStart self (length events) body rc s x = (s', q)"
    have "onlyAdds (buildCall body events) s s'"
      using mapperStart_calls(1)[OF l]
      by (rule onlyAdds_weaken) (use x in \<open>auto simp: buildCall_def\<close>)
    moreover from mapperStart_calls(2)[OF l] x have "?Q q" by auto
    ultimately show "onlyAdds (buildCall body events) s s' \<and> ?Q q" by simp
  next
    fix s q s' r'
    assume q: "?Q q" and rs: "mapperResume self rc s q = (s', r')"
    show "onlyAdds (buildCall body events) s s'"
    proof (cases "pendingPayload q")
      case None
      from mapperResume_calls[OF rs, of undefined] None have "onlyAdds (mapperCall undefined) s s'"
        by simp
      moreover from rs None have "s' = s" by (cases q) (simp_all add: mapperResume_def)
      ultimately show ?thesis by (simp add: onlyAdds_refl)
    next
      case (Some pl)
      with q obtain x where x: "x \<in> set events" "pl = payloadFor (length events) body x" by auto
      from mapperResume_calls[OF rs, of pl] Some have "onlyAdds (mapperCall pl) s s'" by simp
      then show ?thesis by (rule onlyAdds_weaken) (use x in \<open>auto simp: buildCall_def\<close>)
    qed
  qed
  with a have "onlyAdds (buildCall body events) st s2 \<and> onlyAdds (buildCall body events) st s3"
    by (auto intro: onlyAdds_trans)
  moreover from b ev p have "st2 = s2 \<and> st3 = s3"
    by (auto simp: buildAll_def Let_def split: sum.splits)
  ultimately show ?thesis by simp
qed

lemma buildAll_success:
  assumes ev: "mapRequestToEvents (connector_of self) body = Inr events"
    and b: "buildAll self body rc st = (st2, Inr contexts, st3)"
  shows "st3 = st2 \<and>
         (\<forall>x \<in> set events.
            GetUniqueSessionKey (payloadFor (length events) body x) rc \<in> set (newCalls st st2))"
proof -
  let ?st1 = "logCall (MapRequestToEvents body) st"
  obtain s2 res s3 where p:
    "pMap 5 isFinished (mapperResume self rc) (mapperStart self (length events) body rc) events ?st1
       = (s2, res, s3)"
    by (cases "pMap 5 isFinished (mapperResume self rc)
                 (mapperStart self (length events) body rc) events ?st1") auto
  from b ev p obtain cs where res: "res = Inr cs" and e: "st2 = s2" "st3 = s3"
    by (auto simp: buildAll_def Let_def split: sum.splits)
  have "s3 = s2 \<and> (\<forall>x \<in> set events.
          GetUniqueSessionKey (payloadFor (length events) body x) rc \<in> set (newCalls ?st1 s2))"
    by (rule pMap_success[where T = "\<lambda>c. True", OF p[unfolded res]])
       (simp_all add: mapperStart_appends mapperResume_appends)
  moreover have "onlyAdds (\<lambda>c. True) st ?st1" by (simp add: onlyAdds_logCall)
  moreover have "onlyAdds (\<lambda>c. True) ?st1 s2"
    using pMap_calls[where P = "\<lambda>c. True" and Q = "\<lambda>p. True", OF _ _ p]
    by (simp add: mapperStart_appends mapperResume_appends)
  ultimately show ?thesis using e newCalls_later(2)[of "\<lambda>c. True" st ?st1 "\<lambda>c. True" s2] by blast
qed

lemma buildContexts_buildAll:
  "buildContexts self body rc st = (st2, r) \<longleftrightarrow> (\<exists>st3. buildAll self body rc st = (st2, r, st3))"
  by (cases "buildAll self body rc st") (auto simp: buildContexts_def)

lemma buildContexts_events:
  "buildContexts self body rc st = (st2, Inr contexts) \<Longrightarrow>
   \<exists>events. mapRequestToEvents (connector_of self) body = Inr events"
  by (cases "mapRequestToEvents (connector_of self) body")
     (auto simp: buildContexts_def buildAll_def Let_def)

lemma buildContexts_success:
  assumes "buildContexts self body rc st = (st2, Inr contexts)"
  shows "buildAll self body rc st = (st2, Inr contexts, st2)"
proof -
  from assms obtain st3 where b: "buildAll self body rc st = (st2, Inr contexts, st3)"
    by (auto simp: buildContexts_buildAll)
  from buildContexts_events[OF assms] obtain events where
    "mapRequestToEvents (connector_of self) body = Inr events" by blast
  from buildAll_success[OF this b] b show ?thesis by simp
qed

lemma buildContexts_calls:
  assumes ev: "mapRequestToEvents (connector_of self) body = Inr events"
    and b: "buildContexts self body rc st = (st', r)"
  shows "onlyAdds (buildCall body events) st st'"
  using b buildAll_calls[OF ev] by (auto simp: buildContexts_buildAll)

lemma buildContexts_failed_map:
  "mapRequestToEvents (connector_of self) body = Inl e \<Longrightarrow>
   buildContexts self body rc st = (logCall (MapRequestToEvents body) st, Inl e)"
  by (simp add: buildContexts_def buildAll_failed_map)

lemma persist_calls: "persist sto now c st = (st', c', errs) \<Longrightarrow> onlyAdds isWrite st st'"
  unfolding onlyAdds_append
  by (auto simp: persist_def Let_def logCall_def split: option.splits sum.splits)

lemma persistAll_calls:
  "persistAll sto now i cs st = (st', cs', errs) \<Longrightarrow> onlyAdds isWrite st st'"
proof (induction cs arbitrary: i st st' cs' errs)
  case Nil
  then show ?case by (simp add: onlyAdds_refl)
next
  case (Cons c cs)
  obtain st1 c1 e1 where p: "persist sto (now i) c st = (st1, c1, e1)"
    by (cases "persist sto (now i) c st") auto
  obtain st2 cs2 e2 where q: "persistAll sto now (Suc i) cs st1 = (st2, cs2, e2)"
    by (cases "persistAll sto now (Suc i) cs st1") auto
  from Cons.prems p q have "st' = st2" by simp
  with persist_calls[OF p] Cons.IH[OF q] show ?case by (auto intro: onlyAdds_trans)
qed

lemma consoleError_calls: "calls (consoleError errs st) = calls st"
  by (simp add: consoleError_def)

lemma afterTasks_calls:
  "afterTasks sto now ts st = Some (st', cs) \<Longrightarrow> onlyAdds isWrite st st'"
  by (auto simp: afterTasks_def consoleError_calls onlyAdds_same
      split: settled.splits prod.splits
      dest!: persistAll_calls intro: onlyAdds_trans[OF _ onlyAdds_same])

lemma afterTasks_unfulfilled:
  "afterTasks sto now ts st = Some (st', cs) \<Longrightarrow> promiseAll ts \<noteq> AllFulfilled \<Longrightarrow>
   calls st' = calls st"
  by (auto simp: afterTasks_def consoleError_calls split: settled.splits)

lemma buildCall_payloadRule: "buildCall body events c \<Longrightarrow> payloadRule body events c"
  by (cases c) (auto simp: buildCall_def payloadRule_def payloadFor_def)

lemma mapperCall_payload: "mapperCall pl c \<Longrightarrow> payloadOf c = Some pl' \<Longrightarrow> pl' = pl"
  by (cases c) auto

lemma writes_onlyAdds: "onlyAdds (\<lambda>c. \<not> isWrite c) st st' \<Longrightarrow> writes st' = writes st"
  unfolding onlyAdds_append writes_def by (auto simp: list_all_iff filter_empty_conv)

lemma initSessionStore_writes: "initSessionStore sto st = (st', r) \<Longrightarrow> writes st' = writes st"
  by (rule writes_onlyAdds, rule onlyAdds_weaken, erule initSessionStore_calls) simp

lemma buildCall_not_write: "buildCall body events c \<Longrightarrow> \<not> isWrite c"
  by (cases c) (auto simp: buildCall_def)

lemma blocking_rejected:
  assumes "rejections ts \<noteq> []"
  shows "blocking seen sto now contexts ts st =
     Some \<lparr>returned = firstResponse seen contexts ts,
           at_return = st\<lparr>console := console st @ [rejections ts]\<rparr>,
           in_the_end = Some (st\<lparr>console := console st @ [rejections ts]\<rparr>)\<rparr>"
  using assms by (simp add: blocking_def afterTasks_def promiseAll_def consoleError_def)

lemma buildAll_writes:
  assumes "buildAll self body rc st = (st2, r, st3)"
  shows "writes st2 = writes st \<and> writes st3 = writes st"
proof (cases "mapRequestToEvents (connector_of self) body")
  case (Inl e)
  with assms show ?thesis by (auto simp: buildAll_failed_map writes_def logCall_def)
next
  case (Inr events)
  from buildAll_calls[OF Inr assms] show ?thesis
    by (auto intro!: writes_onlyAdds elim!: onlyAdds_weaken dest: buildCall_not_write)
qed

lemma buildContexts_writes: "buildContexts self body rc st = (st', r) \<Longrightarrow> writes st' = writes st"
  by (auto simp: buildContexts_buildAll dest: buildAll_writes)

lemma requestHandler_calls:
  assumes r: "requestHandler n seen self env st inputBody rc = Some r"
    and ev: "mapRequestToEvents (connector_of self) (camelcaseKeysDeep env inputBody) = Inr events"
  shows "onlyAdds (\<lambda>c. c = StoreInit \<or> buildCall (camelcaseKeysDeep env inputBody) events c \<or> isWrite c)
           st (at_return r)
         \<and> (\<forall>st'. in_the_end r = Some st' \<longrightarrow>
              onlyAdds (\<lambda>c. c = StoreInit \<or> buildCall (camelcaseKeysDeep env inputBody) events c \<or>
                 isWrite c) st st')"
proof (cases "truthy inputBody")
  case False
  with r show ?thesis by (auto simp: requestHandler_def reject_def onlyAdds_refl)
next
  case True
  let ?P = "\<lambda>c. c = StoreInit \<or> buildCall (camelcaseKeysDeep env inputBody) events c \<or> isWrite c"
  obtain st1 r1 where i: "initSessionStore (sessions self) st = (st1, r1)"
    by (cases "initSessionStore (sessions self) st")
  have a: "onlyAdds ?P st st1"
    by (rule onlyAdds_weaken[OF initSessionStore_calls[OF i]]) simp
  show ?thesis
  proof (cases r1)
    case (Inl e)
    with r True i a show ?thesis by (auto simp: requestHandler_def reject_def)
  next
    case (Inr u)
    obtain st2 r2 st3 where b: "buildAll self (camelcaseKeysDeep env inputBody) rc st1 = (st2, r2, st3)"
      by (cases "buildAll self (camelcaseKeysDeep env inputBody) rc st1") auto
    from buildAll_calls[OF ev b] have "onlyAdds ?P st1 st2" "onlyAdds ?P st1 st3"
      by (auto elim!: onlyAdds_weaken)
    with a have c: "onlyAdds ?P st st2" and c3: "onlyAdds ?P st st3"
      by (auto intro: onlyAdds_trans)
    show ?thesis
    proof (cases r2)
      case (Inl e)
      with r True i Inr b c c3 show ?thesis by (auto simp: requestHandler_def)
    next
      case ctxs: (Inr contexts)
      show ?thesis
      proof (cases "handler self")
        case None
        with r True i Inr b c ctxs show ?thesis by (auto simp: requestHandler_def reject_def)
      next
        case (Some h)
        let ?ts = "map (runTask n (behaviour_of env) (handlerDidEnd (connector_of self)) h
                         (errorHandler self)) contexts"
        have later: "onlyAdds ?P st s'"
          if "afterTasks (sessions self) (Date_now env) ?ts st2 = Some (s', cs)" for s' cs
        proof -
          from afterTasks_calls[OF that] have "onlyAdds ?P st2 s'"
            by (rule onlyAdds_weaken) simp
          with c show ?thesis by (rule onlyAdds_trans)
        qed
        show ?thesis
        proof (cases "sync self")
          case False
          with r True i Inr b ctxs Some
          have "r = fireAndForget (sessions self) (Date_now env) ?ts st2"
            by (simp add: requestHandler_def Let_def)
          with c later show ?thesis by (auto simp: fireAndForget_def)
        next
          case True
          with r \<open>truthy inputBody\<close> i Inr b ctxs Some
          have bl: "blocking seen (sessions self) (Date_now env) contexts ?ts st2 = Some r"
            by (simp add: requestHandler_def Let_def)
          then obtain cs where "afterTasks (sessions self) (Date_now env) ?ts st2 = Some (at_return r, cs)"
            and "in_the_end r = Some (at_return r)"
            by (auto simp: blocking_def split: option.splits)
          with later show ?thesis by auto
        qed
      qed
    qed
  qed
qed

lemma mapper_calls_first:
  "\<exists>st1 res. mapper self k body rc st0 ev = (st1, res) \<and>
     take 1 (newCalls st0 st1) = [GetUniqueSessionKey (payloadFor k body ev) rc]"
proof -
  obtain s1 p where l: "mapperStart self k body rc st0 ev = (s1, p)"
    by (cases "mapperStart self k body rc st0 ev")
  obtain st1 res where rs: "mapperResume self rc s1 p = (st1, res)"
    by (cases "mapperResume self rc s1 p")
  have m: "mapper self k body rc st0 ev = (st1, res)"
    by (simp add: mapper_in_two_steps l rs)
  from l have "take 1 (newCalls st0 s1) = [GetUniqueSessionKey (payloadFor k body ev) rc]"
    by (auto simp: mapperStart_def Let_def logCall_def newCalls_def
        split: sum.splits option.splits if_splits)
  moreover from mapperStart_appends[OF l] mapperResume_appends[OF rs]
  have "newCalls st0 st1 = newCalls st0 s1 @ newCalls s1 st1"
    by (auto intro: newCalls_trans)
  ultimately have "take 1 (newCalls st0 st1) = [GetUniqueSessionKey (payloadFor k body ev) rc]"
    by (cases "newCalls st0 s1") auto
  with m show ?thesis by blast
qed

lemma mapper_calls_update:
  assumes "getUniqueSessionKey (connector_of self) (payloadFor k body ev) rc = Inr (Some key)"
    and "key \<noteq> []"
    and "store_read (sessions self) (store st0) (platform (connector_of self) @ '':'' @ key)
           = Inr stored"
    and "fixIdentity (case stored of None \<Rightarrow> emptySession | Some s \<Rightarrow> s)
           (platform (connector_of self) @ '':'' @ key) (platform (connector_of self)) = Inr s"
  shows "UpdateSession s (payloadFor k body ev) \<in>
           set (newCalls st0 (fst (mapper self k body rc st0 ev)))"
  using assms
  by (auto simp: mapper_def resolveIfKey_def resolveSession_def Let_def logCall_def newCalls_def
      split: sum.splits)

lemma pMap_nil: "pMap k settled resume launch [] st = (st, Inr [], st)"
  by (simp add: pMap_def) (subst drain.simps, simp add: takeNext_def)

text \<open>On success: what the function of an item appends when it is resumed is in the log.\<close>

lemma drain_done:
  "drain settled resume launch queue rest rej acc st = (st2, Inr ys, st3) \<Longrightarrow>
   (\<And>s x s' p. launch s x = (s', p) \<Longrightarrow> onlyAdds T s s' \<and> W x p) \<Longrightarrow>
   (\<And>s p s' r. resume s p = (s', r) \<Longrightarrow> onlyAdds T s s') \<Longrightarrow>
   (\<And>s p s' y. resume s p = (s', Inr y) \<Longrightarrow> W x p \<Longrightarrow> H (newCalls s s')) \<Longrightarrow>
   (\<And>cs cs'. H cs \<Longrightarrow> H (cs @ cs')) \<Longrightarrow> (\<And>cs cs'. H cs' \<Longrightarrow> H (cs @ cs')) \<Longrightarrow>
   queue \<noteq> [] \<or> rest = [] \<Longrightarrow> onlyAdds T base st \<Longrightarrow>
   x \<in> snd ` set rest \<or> (\<exists>q \<in> set queue. W x (snd q)) \<or> H (newCalls base st) \<Longrightarrow>
   H (newCalls base st2)"
proof (induction settled resume launch queue rest rej acc st rule: drain.induct)
  case (1 settled resume launch queue rest rej acc st)
  note d = "1.prems"(1) and L = "1.prems"(2) and R = "1.prems"(3) and RH = "1.prems"(4)
    and ml = "1.prems"(5) and mr = "1.prems"(6) and ne = "1.prems"(7) and b = "1.prems"(8)
    and inv = "1.prems"(9)
  show ?case
  proof (cases "takeNext settled queue")
    case None
    from takeNext_None[OF None] ne have e: "queue = []" "rest = []" by simp_all
    from d None have "st2 = st"
      by (subst (asm) drain.simps) (auto split: option.splits prod.splits)
    with inv e show ?thesis by simp
  next
    case (Some t)
    obtain i p queue' where t: "t = ((i, p), queue')" by (cases t) auto
    note tn = Some[unfolded t]
    note qs = takeNext_set[OF tn]
    obtain st1 r where rs: "resume st p = (st1, r)" by (cases "resume st p")
    from b R[OF rs] have b1: "onlyAdds T base st1" by (rule onlyAdds_trans)
    have n1: "newCalls base st1 = newCalls base st @ newCalls st st1"
      by (rule newCalls_trans[OF b R[OF rs]])
    show ?thesis
    proof (cases r)
      case (Inl e)
      from d tn rs Inl
      have "drain settled resume launch queue' rest
                  (case rej of None \<Rightarrow> Some (e, st1) | Some r \<Rightarrow> Some r) acc st1 = (st2, Inr ys, st3)"
        by (subst (asm) drain.simps) simp
      from drain_rejected[OF this] show ?thesis by (cases rej) auto
    next
      case (Inr y)
      show ?thesis
      proof (cases rej)
        case (Some r0)
        from d tn rs Inr Some
        have "drain settled resume launch queue' rest (Some r0) acc st1 = (st2, Inr ys, st3)"
          by (subst (asm) drain.simps) simp
        from drain_rejected[OF this refl] show ?thesis by simp
      next
        case None
        have inv1: "x \<in> snd ` set rest \<or> (\<exists>q \<in> set queue'. W x (snd q)) \<or> H (newCalls base st1)"
        proof -
          from inv consider "x \<in> snd ` set rest" | "W x p" | "\<exists>q \<in> set queue'. W x (snd q)"
            | "H (newCalls base st)"
            using qs by auto
          then show ?thesis
          proof cases
            case 2
            from RH[OF rs[unfolded Inr] 2] have "H (newCalls base st1)" unfolding n1 by (rule mr)
            then show ?thesis by simp
          next
            case 4
            then have "H (newCalls base st1)" unfolding n1 by (rule ml)
            then show ?thesis by simp
          qed simp_all
        qed
        show ?thesis
        proof (cases rest)
          case Nil
          from d tn rs Inr None Nil
          have d': "drain settled resume launch queue' [] None ((i, y) # acc) st1 = (st2, Inr ys, st3)"
            by (subst (asm) drain.simps) simp
          from inv1 Nil
          have inv2: "x \<in> snd ` set [] \<or> (\<exists>q \<in> set queue'. W x (snd q)) \<or> H (newCalls base st1)"
            by simp
          from "1.IH"(2)[OF tn refl refl rs[symmetric] Inr None Nil d' L R RH ml mr _ b1 inv2]
          show ?thesis by simp
        next
          case (Cons a rest')
          obtain j z where a: "a = (j, z)" by (cases a)
          obtain st2' p' where l: "launch st1 z = (st2', p')" by (cases "launch st1 z")
          from L[OF l] have la: "onlyAdds T st1 st2'" and wz: "W z p'" by simp_all
          from b1 la have b2: "onlyAdds T base st2'" by (rule onlyAdds_trans)
          have n2: "newCalls base st2' = newCalls base st1 @ newCalls st1 st2'"
            by (rule newCalls_trans[OF b1 la])
          from d tn rs Inr None Cons a l
          have d': "drain settled resume launch (queue' @ [(j, p')]) rest' None ((i, y) # acc) st2'
                      = (st2, Inr ys, st3)"
            by (subst (asm) drain.simps) simp
          have ne': "queue' @ [(j, p')] \<noteq> [] \<or> rest' = []" by simp
          have inv2: "x \<in> snd ` set rest' \<or> (\<exists>q \<in> set (queue' @ [(j, p')]). W x (snd q)) \<or>
                        H (newCalls base st2')"
          proof -
            from inv1 Cons a consider "x = z" | "x \<in> snd ` set rest'"
              | "\<exists>q \<in> set queue'. W x (snd q)" | "H (newCalls base st1)"
              by auto
            then show ?thesis
            proof cases
              case 1
              with wz show ?thesis by simp
            next
              case 4
              then have "H (newCalls base st2')" unfolding n2 by (rule ml)
              then show ?thesis by simp
            qed auto
          qed
          from "1.IH"(3)[OF tn refl refl rs[symmetric] Inr None Cons[unfolded a] refl l[symmetric] d'
              L R RH ml mr ne' b2 inv2]
          show ?thesis by simp
        qed
      qed
    qed
  qed
qed

lemma startAll_pending:
  "startAll launch items st = (st', queue) \<Longrightarrow>
   (\<And>s x s' p. launch s x = (s', p) \<Longrightarrow> onlyAdds T s s' \<and> W x p) \<Longrightarrow>
   \<forall>x \<in> snd ` set items. \<exists>q \<in> set queue. W x (snd q)"
proof (induction items arbitrary: st st' queue)
  case Nil
  then show ?case by simp
next
  case (Cons a items)
  obtain i x where a: "a = (i, x)" by (cases a)
  obtain st1 p where l: "launch st x = (st1, p)" by (cases "launch st x")
  obtain st2 ps where r: "startAll launch items st1 = (st2, ps)"
    by (cases "startAll launch items st1")
  from Cons.prems(2)[OF l] have w: "W x p" by simp
  from Cons.IH[OF r Cons.prems(2)] have ih: "\<forall>x \<in> snd ` set items. \<exists>q \<in> set ps. W x (snd q)"
    by simp
  from Cons.prems(1) a l r have e: "queue = (i, p) # ps" by simp
  from w ih show ?case unfolding e a by auto
qed

lemma startAll_length: "startAll launch items st = (st', queue) \<Longrightarrow> length queue = length items"
proof (induction items arbitrary: st st' queue)
  case Nil
  then show ?case by simp
next
  case (Cons a items)
  obtain i x where a: "a = (i, x)" by (cases a)
  obtain st1 p where l: "launch st x = (st1, p)" by (cases "launch st x")
  obtain st2 ps where r: "startAll launch items st1 = (st2, ps)"
    by (cases "startAll launch items st1")
  from Cons.prems a l r have "queue = (i, p) # ps" by simp
  with Cons.IH[OF r] show ?case by simp
qed

lemma pMap_done:
  assumes p: "pMap k settled resume launch xs st = (st2, Inr ys, st3)"
    and L: "\<And>s x s' p. launch s x = (s', p) \<Longrightarrow> onlyAdds T s s' \<and> W x p"
    and R: "\<And>s p s' r. resume s p = (s', r) \<Longrightarrow> onlyAdds T s s'"
    and RH: "\<And>s p s' y. resume s p = (s', Inr y) \<Longrightarrow> W x p \<Longrightarrow> H (newCalls s s')"
    and ml: "\<And>cs cs'. H cs \<Longrightarrow> H (cs @ cs')" and mr: "\<And>cs cs'. H cs' \<Longrightarrow> H (cs @ cs')"
    and k: "0 < k" and x: "x \<in> set xs"
  shows "H (newCalls st st2)"
proof -
  obtain st1 queue where s: "startAll launch (take k (enumerate 0 xs)) st = (st1, queue)"
    by (cases "startAll launch (take k (enumerate 0 xs)) st")
  have a: "onlyAdds T st st1"
    using startAll_calls[where P = T and Q = "\<lambda>p. True" and launch = launch, OF _ s] L by simp
  note len = startAll_length[OF s]
  from startAll_pending[where W = W and T = T, OF s L]
  have pend: "\<forall>x \<in> snd ` set (take k (enumerate 0 xs)). \<exists>q \<in> set queue. W x (snd q)" .
  from p s have d: "drain settled resume launch queue (drop k (enumerate 0 xs)) None [] st1
                     = (st2, Inr ys, st3)"
    by (simp add: pMap_def)
  have ne: "queue \<noteq> [] \<or> drop k (enumerate 0 xs) = []"
  proof (cases xs)
    case Nil
    then show ?thesis by simp
  next
    case (Cons y ys')
    with len k have "length queue \<noteq> 0" by simp
    then show ?thesis by auto
  qed
  have sn: "snd ` set (enumerate 0 xs) = set xs"
    by (metis list.set_map map_snd_enumerate)
  from x sn have "x \<in> snd ` set (take k (enumerate 0 xs) @ drop k (enumerate 0 xs))"
    by simp
  then have "x \<in> snd ` set (take k (enumerate 0 xs)) \<or> x \<in> snd ` set (drop k (enumerate 0 xs))"
    by (auto simp del: append_take_drop_id)
  with pend have inv: "x \<in> snd ` set (drop k (enumerate 0 xs)) \<or> (\<exists>q \<in> set queue. W x (snd q)) \<or>
                         H (newCalls st st1)"
    by blast
  show ?thesis
    by (rule drain_done[where W = W and T = T and H = H, OF d L R RH ml mr ne a inv])
qed

lemma mapperStart_pending:
  "mapperStart self k body rc s x = (s', p) \<Longrightarrow>
   getUniqueSessionKey (connector_of self) (payloadFor k body x) rc = Inr (Some key) \<Longrightarrow>
   key \<noteq> [] \<Longrightarrow> pendingPayload p = Some (payloadFor k body x)"
  by (auto simp: mapperStart_def Let_def)

lemma mapperResume_updates:
  "mapperResume self rc s p = (s', Inr y) \<Longrightarrow> pendingPayload p = Some pl \<Longrightarrow>
   \<exists>sess. UpdateSession sess pl \<in> set (newCalls s s')"
  by (cases p)
     (auto simp: mapperResume_def Let_def logCall_def newCalls_def split: sum.splits)

lemma buildAll_updates:
  assumes ev: "mapRequestToEvents (connector_of self) body = Inr events"
    and b: "buildAll self body rc st = (st2, Inr contexts, st3)"
    and x: "x \<in> set events"
    and key: "getUniqueSessionKey (connector_of self) (payloadFor (length events) body x) rc
                = Inr (Some key)" "key \<noteq> []"
  shows "\<exists>sess. UpdateSession sess (payloadFor (length events) body x) \<in> set (newCalls st st2)"
proof -
  let ?st1 = "logCall (MapRequestToEvents body) st"
  let ?pl = "payloadFor (length events) body"
  let ?H = "\<lambda>cs. \<exists>sess. UpdateSession sess (?pl x) \<in> set cs"
  let ?W = "\<lambda>y p. (\<exists>k. getUniqueSessionKey (connector_of self) (?pl y) rc = Inr (Some k) \<and> k \<noteq> [])
                  \<longrightarrow> pendingPayload p = Some (?pl y)"
  from ev b obtain ys where p:
    "pMap 5 isFinished (mapperResume self rc) (mapperStart self (length events) body rc) events ?st1
       = (st2, Inr ys, st3)"
    by (auto simp: buildAll_def Let_def split: prod.splits sum.splits)
  have "?H (newCalls ?st1 st2)"
  proof (rule pMap_done[where W = ?W and T = "\<lambda>c. True" and H = ?H, OF p _ _ _ _ _ _ x])
    fix s y s' q
    assume "mapperStart self (length events) body rc s y = (s', q)"
    from mapperStart_appends[OF this] mapperStart_pending[OF this]
    show "onlyAdds (\<lambda>c. True) s s' \<and> ?W y q" by blast
  next
    fix s q s' r
    assume "mapperResume self rc s q = (s', r)"
    then show "onlyAdds (\<lambda>c. True) s s'" by (rule mapperResume_appends)
  next
    fix s q s' y
    assume "mapperResume self rc s q = (s', Inr y)" and "?W x q"
    with key mapperResume_updates show "?H (newCalls s s')" by blast
  qed auto
  moreover have "onlyAdds (\<lambda>c. True) st ?st1" by (simp add: onlyAdds_logCall)
  moreover from buildAll_calls[OF ev b] have "onlyAdds (\<lambda>c. True) st st2"
    by (auto elim: onlyAdds_weaken)
  moreover have "onlyAdds (\<lambda>c. True) ?st1 st2"
    using pMap_calls[where P = "\<lambda>c. True" and Q = "\<lambda>p. True", OF _ _ p]
      mapperStart_appends mapperResume_appends by blast
  ultimately show ?thesis
    using newCalls_later(2)[of "\<lambda>c. True" st ?st1 "\<lambda>c. True" st2] by blast
qed

subsection \<open>The small bot, evaluated\<close>

lemma demo_init: "initSessionStore (sessions (demoBot b)) freshState = (demoReady, Inr ())"
  by (simp add: initSessionStore_def initSessionStore_enter_def initSessionStore_resume_def
      demoBot_def memoryStore_def freshState_def demoReady_def logCall_def)

lemma demo_camel: "camelcaseKeysDeep demoEnv v = v"
  by (simp add: demoEnv_def)

lemma demo_two_built:
  "snd (buildContexts (demoBot True) twoEvents None demoReady) = Inr [bobContext, annContext]"
  by code_simp

lemma demo_two_built_console:
  "console (fst (buildContexts (demoBot True) twoEvents None demoReady)) = []"
  by code_simp

lemma demo_two_outcomes:
  "map t_outcome (map demoTask [bobContext, annContext]) = [Fulfilled, Rejected (Thrown (JStr ''boom''))]"
  by code_simp

lemma demo_bob_session_after:
  "session (rs_context (t_state (demoTask bobContext))) =
     Some \<lparr>entries = [(''id'', JStr ''demo:bob''), (''platform'', JStr ''demo''),
                 (''user'', JStr ''bob''), (''count'', JNum 1)],
      readonly = [''platform'', ''id'']\<rparr>"
  by code_simp

lemma demo_two_writes:
  "map_option (writes \<circ> at_return) (requestHandler 2 3 (demoBot True) demoEnv freshState twoEvents None) = Some []"
  by code_simp

lemma demo_two_store:
  "map_option (store \<circ> at_return) (requestHandler 2 3 (demoBot True) demoEnv freshState twoEvents None) = Some []"
  by code_simp

lemma demo_two_returned:
  "map_option returned (requestHandler 2 3 (demoBot True) demoEnv freshState twoEvents None) = Some (Inr (JStr ''ok''))"
  by code_simp

lemma demo_two_rejections:
  "rejections
     [runTask 2 (behaviour_of demoEnv) (handlerDidEnd (connector_of (demoBot True)))
        ''reply'' (errorHandler (demoBot True)) bobContext,
      runTask 2 (behaviour_of demoEnv) (handlerDidEnd (connector_of (demoBot True)))
        ''reply'' (errorHandler (demoBot True)) annContext] = [Thrown (JStr ''boom'')]"
  by code_simp

lemma demo_bob_seen:
  "response (apply_ops (take 2 (rs_ops (t_state (runTask 2 (behaviour_of demoEnv)
      (handlerDidEnd (connector_of (demoBot True))) ''reply'' (errorHandler (demoBot True)) bobContext))))
      bobContext) = JStr ''ok''"
  by code_simp

lemma demo_fresh_writes: "writes freshState = []"
  by (simp add: writes_def freshState_def)

lemma demo_one_built:
  "snd (buildContexts (demoBot True) oneEvent None demoReady) = Inr [bobContext]"
  by code_simp

lemma demo_one_returned:
  "map_option returned (requestHandler 2 0 (demoBot True) demoEnv freshState oneEvent None)
     = Some (Inr (JStr ''ok''))"
  by code_simp

lemma demo_bob_outcome: "t_outcome (demoTask bobContext) = Fulfilled"
  by code_simp

lemma demo_bob_response: "response (rs_context (t_state (demoTask bobContext))) = JStr ''ok''"
  by code_simp

lemma demo_plain_built:
  "snd (buildContexts (demoBot True) goodEvent None demoReady) = Inr [bobContext]"
  by code_simp

lemma demo_plain_fulfilled:
  "promiseAll
     [runTask 2 (behaviour_of demoEnv) (handlerDidEnd (connector_of (demoBot True)))
        ''reply'' (errorHandler (demoBot True)) bobContext] = AllFulfilled"
  by code_simp

lemma demo_plain_response:
  "response (rs_context (t_state (runTask 2 (behaviour_of demoEnv)
      (handlerDidEnd (connector_of (demoBot True))) ''reply'' (errorHandler (demoBot True))
      bobContext))) = JStr ''ok''"
  by code_simp

lemma demo_async_returned:
  "map_option returned (requestHandler 2 0 (demoBot False) demoEnv freshState oneEvent None)
     = Some (Inr Undefined)"
  by code_simp

lemma demo_async_later:
  "map_option (map_option writes \<circ> in_the_end)
     (requestHandler 2 0 (demoBot False) demoEnv freshState oneEvent None)
     = Some (Some [StoreWrite (JStr ''demo:bob'')
         \<lparr>entries = [(''id'', JStr ''demo:bob''), (''platform'', JStr ''demo''),
                     (''user'', JStr ''bob''), (''count'', JNum 1), (''lastActivity'', JNum 1000)],
          readonly = [''platform'', ''id'']\<rparr>])"
  by code_simp

lemma demo_mapper_calls:
  "newCalls demoReady (fst (mapper (demoBot True) 2 twoEvents None demoReady goodEvent)) =
     [GetUniqueSessionKey (SingleEvent goodEvent) None, StoreRead ''demo:bob'',
      UpdateSession bobFixed (SingleEvent goodEvent),
      CreateContext goodEvent (Some bobSession)]"
  by code_simp

lemma demo_update_ops:
  "apply_session_ops [Assign ''user'' (JStr ''bob''), Assign ''id'' (JStr ''other''), Delete ''platform'']
     bobFixed = bobSession"
  by code_simp

lemma demo_bob_ops:
  "rs_ops (t_state (demoTask bobContext)) =
     [SetResponse (JStr ''ok''), OnSession (Assign ''count'' (JNum 1)),
      OnSession (Assign ''id'' (JStr ''changed''))]"
  by code_simp

lemma demo_two_calls:
  "map_option (calls \<circ> at_return)
     (requestHandler 2 3 (demoBot True) demoEnv freshState twoEvents None) =
   Some [StoreInit, MapRequestToEvents twoEvents,
         GetUniqueSessionKey (SingleEvent goodEvent) None, StoreRead ''demo:bob'',
         GetUniqueSessionKey (SingleEvent badEvent) None, StoreRead ''demo:ann'',
         UpdateSession bobFixed (SingleEvent goodEvent), CreateContext goodEvent (Some bobSession),
         UpdateSession annFixed (SingleEvent badEvent), CreateContext badEvent (Some annSession)]"
  by code_simp

text \<open>The read of the first event fails: the request is rejected with the calls made so far,
  and the mapper of the second event, already started, still makes its calls.\<close>

lemma demo_broken_returned:
  "map_option returned (requestHandler 2 3 brokenBot demoEnv freshState twoEvents None) =
     Some (Inl (Thrown (JStr ''down'')))"
  by code_simp

lemma demo_broken_calls:
  "map_option (calls \<circ> at_return) (requestHandler 2 3 brokenBot demoEnv freshState twoEvents None) =
   Some [StoreInit, MapRequestToEvents twoEvents,
         GetUniqueSessionKey (SingleEvent goodEvent) None, StoreRead ''demo:bob'',
         GetUniqueSessionKey (SingleEvent badEvent) None, StoreRead ''demo:ann'']"
  by code_simp

lemma demo_broken_later:
  "map_option (map_option calls \<circ> in_the_end)
     (requestHandler 2 3 brokenBot demoEnv freshState twoEvents None) =
   Some (Some [StoreInit, MapRequestToEvents twoEvents,
         GetUniqueSessionKey (SingleEvent goodEvent) None, StoreRead ''demo:bob'',
         GetUniqueSessionKey (SingleEvent badEvent) None, StoreRead ''demo:ann'',
         UpdateSession annFixed (SingleEvent badEvent), CreateContext badEvent (Some annSession)])"
  by code_simp

subsection \<open>The payload of the session calls\<close>

lemma demo_two_events:
  "mapRequestToEvents (connector_of (demoBot b)) twoEvents = Inr [goodEvent, badEvent]"
  by (simp add: demoBot_def demoConnector_def twoEvents_def field_def)

lemma demo_bob_key:
  "getUniqueSessionKey (connector_of (demoBot b)) (SingleEvent goodEvent) None = Inr (Some ''bob'')"
  by (simp add: demoBot_def demoConnector_def goodEvent_def field_def eventOf_def)

lemma demo_bob_read:
  "store_read (sessions (demoBot b)) (store demoReady)
     (platform (connector_of (demoBot b)) @ '':'' @ ''bob'') = Inr None"
  by (simp add: demoBot_def memoryStore_def demoReady_def)

lemma demo_bob_fixed:
  "fixIdentity emptySession (platform (connector_of (demoBot b)) @ '':'' @ ''bob'')
     (platform (connector_of (demoBot b))) = Inr bobFixed"
  by code_simp

text \<open>
  C6. The payload handed to \<^verbatim>\<open>getUniqueSessionKey\<close> and to \<^verbatim>\<open>updateSession\<close>. The mapper of
  one event returns, and the first call it logs is \<^verbatim>\<open>getUniqueSessionKey\<close> with the whole
  normalized body if the request has exactly one event, and with that event otherwise; every
  call of the two methods that it logs carries that payload; and when the key is truthy, the
  store's read succeeds and the identity is fixed, \<^verbatim>\<open>updateSession\<close> is called with the fixed
  session and that same payload. Over a whole request whose normalized body the connector
  maps to \<open>events\<close>: every call of the two methods, up to the return and up to the end of the
  work left behind, carries the whole normalized body if and only if there is exactly one
  event, and one of the events otherwise. And when the contexts of all events are built,
  \<^verbatim>\<open>getUniqueSessionKey\<close> has been called for each event, with the body if the event is the
  only one and with the event otherwise, and \<^verbatim>\<open>updateSession\<close> has been called with that
  payload for each event whose key is truthy.
\<close>

theorem session_calls_payload:
  "(\<exists>st1 res.
      mapper self k body rc st0 ev = (st1, res) \<and>
      take 1 (newCalls st0 st1) =
        [GetUniqueSessionKey (if k = 1 then WholeBody body else SingleEvent ev) rc] \<and>
      list_all (\<lambda>c. \<forall>pl. payloadOf c = Some pl \<longrightarrow>
                      pl = (if k = 1 then WholeBody body else SingleEvent ev)) (newCalls st0 st1) \<and>
      (\<forall>key stored s.
         getUniqueSessionKey (connector_of self)
           (if k = 1 then WholeBody body else SingleEvent ev) rc = Inr (Some key) \<longrightarrow>
         key \<noteq> [] \<longrightarrow>
         store_read (sessions self) (store st0) (platform (connector_of self) @ '':'' @ key)
           = Inr stored \<longrightarrow>
         fixIdentity (case stored of None \<Rightarrow> emptySession | Some s' \<Rightarrow> s')
           (platform (connector_of self) @ '':'' @ key) (platform (connector_of self)) = Inr s \<longrightarrow>
         UpdateSession s (if k = 1 then WholeBody body else SingleEvent ev)
           \<in> set (newCalls st0 st1)))
   \<and> (requestHandler n seen self env st inputBody rc = Some r \<longrightarrow>
        mapRequestToEvents (connector_of self) (camelcaseKeysDeep env inputBody) = Inr events \<longrightarrow>
        list_all (payloadRule (camelcaseKeysDeep env inputBody) events) (newCalls st (at_return r)) \<and>
        (\<forall>st'. in_the_end r = Some st' \<longrightarrow>
           list_all (payloadRule (camelcaseKeysDeep env inputBody) events) (newCalls st st')))
   \<and> (mapRequestToEvents (connector_of self) body = Inr events \<longrightarrow>
        buildContexts self body rc st0 = (st2, Inr contexts) \<longrightarrow>
        (\<forall>e \<in> set events.
           GetUniqueSessionKey (if length events = 1 then WholeBody body else SingleEvent e) rc
             \<in> set (newCalls st0 st2) \<and>
           (\<forall>key.
              getUniqueSessionKey (connector_of self)
                (if length events = 1 then WholeBody body else SingleEvent e) rc = Inr (Some key) \<longrightarrow>
              key \<noteq> [] \<longrightarrow>
              (\<exists>s. UpdateSession s (if length events = 1 then WholeBody body else SingleEvent e)
                      \<in> set (newCalls st0 st2)))))"
proof (intro conjI impI)
  let ?pl = "if k = 1 then WholeBody body else SingleEvent ev"
  have pl: "payloadFor k body ev = ?pl" by (simp add: payloadFor_def)
  from mapper_calls_first[of self k body rc st0 ev] obtain st1 res where
    m: "mapper self k body rc st0 ev = (st1, res)"
    and f: "take 1 (newCalls st0 st1) = [GetUniqueSessionKey ?pl rc]"
    by (auto simp: pl)
  from mapper_calls[OF m]
  have a: "list_all (\<lambda>c. \<forall>pl. payloadOf c = Some pl \<longrightarrow> pl = ?pl) (newCalls st0 st1)"
    unfolding onlyAdds_def list_all_iff pl using mapperCall_payload by blast
  have u: "UpdateSession s ?pl \<in> set (newCalls st0 st1)"
    if "getUniqueSessionKey (connector_of self) ?pl rc = Inr (Some key)" "key \<noteq> []"
      "store_read (sessions self) (store st0) (platform (connector_of self) @ '':'' @ key)
         = Inr stored"
      "fixIdentity (case stored of None \<Rightarrow> emptySession | Some s' \<Rightarrow> s')
         (platform (connector_of self) @ '':'' @ key) (platform (connector_of self)) = Inr s"
    for key stored s
    using mapper_calls_update[of self k body ev rc key st0 stored s] that m by (simp add: pl)
  from m f a u
  show "\<exists>st1 res.
      mapper self k body rc st0 ev = (st1, res) \<and>
      take 1 (newCalls st0 st1) = [GetUniqueSessionKey ?pl rc] \<and>
      list_all (\<lambda>c. \<forall>pl. payloadOf c = Some pl \<longrightarrow> pl = ?pl) (newCalls st0 st1) \<and>
      (\<forall>key stored s.
         getUniqueSessionKey (connector_of self) ?pl rc = Inr (Some key) \<longrightarrow>
         key \<noteq> [] \<longrightarrow>
         store_read (sessions self) (store st0) (platform (connector_of self) @ '':'' @ key)
           = Inr stored \<longrightarrow>
         fixIdentity (case stored of None \<Rightarrow> emptySession | Some s' \<Rightarrow> s')
           (platform (connector_of self) @ '':'' @ key) (platform (connector_of self)) = Inr s \<longrightarrow>
         UpdateSession s ?pl \<in> set (newCalls st0 st1))"
    by blast
next
  assume rq: "requestHandler n seen self env st inputBody rc = Some r"
    and ev: "mapRequestToEvents (connector_of self) (camelcaseKeysDeep env inputBody) = Inr events"
  let ?b = "camelcaseKeysDeep env inputBody"
  have rule: "payloadRule ?b events c"
    if "c = StoreInit \<or> buildCall ?b events c \<or> isWrite c" for c
  proof -
    from that consider "c = StoreInit" | "buildCall ?b events c" | "isWrite c" by blast
    then show ?thesis
    proof cases
      case 1 then show ?thesis by (simp add: payloadRule_def)
    next
      case 2 then show ?thesis by (rule buildCall_payloadRule)
    next
      case 3 then show ?thesis by (cases c) (simp_all add: payloadRule_def)
    qed
  qed
  from requestHandler_calls[OF rq ev] rule
  show "list_all (payloadRule ?b events) (newCalls st (at_return r))"
    unfolding onlyAdds_def list_all_iff by blast
  from requestHandler_calls[OF rq ev] rule
  show "\<forall>st'. in_the_end r = Some st' \<longrightarrow> list_all (payloadRule ?b events) (newCalls st st')"
    unfolding onlyAdds_def list_all_iff by blast
next
  assume ev: "mapRequestToEvents (connector_of self) body = Inr events"
    and b: "buildContexts self body rc st0 = (st2, Inr contexts)"
  note b' = buildContexts_success[OF b]
  show "\<forall>e \<in> set events.
           GetUniqueSessionKey (if length events = 1 then WholeBody body else SingleEvent e) rc
             \<in> set (newCalls st0 st2) \<and>
           (\<forall>key.
              getUniqueSessionKey (connector_of self)
                (if length events = 1 then WholeBody body else SingleEvent e) rc = Inr (Some key) \<longrightarrow>
              key \<noteq> [] \<longrightarrow>
              (\<exists>s. UpdateSession s (if length events = 1 then WholeBody body else SingleEvent e)
                      \<in> set (newCalls st0 st2)))"
  proof (intro ballI conjI allI impI)
    fix e assume "e \<in> set events"
    with buildAll_success[OF ev b']
    show "GetUniqueSessionKey (if length events = 1 then WholeBody body else SingleEvent e) rc
            \<in> set (newCalls st0 st2)"
      by (simp add: payloadFor_def)
  next
    fix e key
    assume "e \<in> set events"
      and "getUniqueSessionKey (connector_of self)
             (if length events = 1 then WholeBody body else SingleEvent e) rc = Inr (Some key)"
      and "key \<noteq> []"
    with buildAll_updates[OF ev b', of e key]
    show "\<exists>s. UpdateSession s (if length events = 1 then WholeBody body else SingleEvent e)
                 \<in> set (newCalls st0 st2)"
      by (simp add: payloadFor_def)
  qed
qed

theorem session_calls_payload_witness:
  "take 1 (newCalls demoReady (fst (mapper (demoBot True) 2 twoEvents None demoReady goodEvent))) =
     [GetUniqueSessionKey (SingleEvent goodEvent) None]
   \<and> UpdateSession bobFixed (SingleEvent goodEvent) \<in>
       set (newCalls demoReady (fst (mapper (demoBot True) 2 twoEvents None demoReady goodEvent)))
   \<and> (case requestHandler 2 3 (demoBot True) demoEnv freshState twoEvents None of
        None \<Rightarrow> False
      | Some r \<Rightarrow> newCalls freshState (at_return r) \<noteq> [] \<and>
          list_all (payloadRule twoEvents [goodEvent, badEvent]) (newCalls freshState (at_return r)))
   \<and> GetUniqueSessionKey (SingleEvent goodEvent) None \<in>
       set (newCalls demoReady (fst (buildContexts (demoBot True) twoEvents None demoReady)))
   \<and> GetUniqueSessionKey (SingleEvent badEvent) None \<in>
       set (newCalls demoReady (fst (buildContexts (demoBot True) twoEvents None demoReady)))
   \<and> (\<exists>s. UpdateSession s (SingleEvent goodEvent) \<in>
       set (newCalls demoReady (fst (buildContexts (demoBot True) twoEvents None demoReady))))"
proof -
  let ?b = "demoBot True"
  obtain r where r: "requestHandler 2 3 ?b demoEnv freshState twoEvents None = Some r"
    using demo_two_returned by (cases "requestHandler 2 3 ?b demoEnv freshState twoEvents None") auto
  have ne: "newCalls freshState (at_return r) \<noteq> []"
    using demo_two_calls r by (auto simp: newCalls_def freshState_def)
  obtain st2 where b: "buildContexts ?b twoEvents None demoReady = (st2, Inr [bobContext, annContext])"
    using demo_two_built by (cases "buildContexts ?b twoEvents None demoReady") auto
  note t = session_calls_payload[where self = ?b and k = 2 and body = twoEvents
      and rc = None and ?st0.0 = demoReady and ev = goodEvent
      and n = 2 and seen = 3 and env = demoEnv and st = freshState and inputBody = twoEvents
      and r = r and events = "[goodEvent, badEvent]" and ?st2.0 = st2
      and contexts = "[bobContext, annContext]"]
  from t obtain st1 res where
    m: "mapper ?b 2 twoEvents None demoReady goodEvent = (st1, res)"
    and f: "take 1 (newCalls demoReady st1) = [GetUniqueSessionKey (SingleEvent goodEvent) None]"
    and u: "\<And>key stored s.
         getUniqueSessionKey (connector_of ?b) (SingleEvent goodEvent) None = Inr (Some key) \<Longrightarrow>
         key \<noteq> [] \<Longrightarrow>
         store_read (sessions ?b) (store demoReady) (platform (connector_of ?b) @ '':'' @ key)
           = Inr stored \<Longrightarrow>
         fixIdentity (case stored of None \<Rightarrow> emptySession | Some s' \<Rightarrow> s')
           (platform (connector_of ?b) @ '':'' @ key) (platform (connector_of ?b)) = Inr s \<Longrightarrow>
         UpdateSession s (SingleEvent goodEvent) \<in> set (newCalls demoReady st1)"
    by auto
  from u[OF demo_bob_key _ demo_bob_read] demo_bob_fixed
  have u': "UpdateSession bobFixed (SingleEvent goodEvent) \<in> set (newCalls demoReady st1)"
    by simp
  from t r demo_two_events[of True] have
    p: "list_all (payloadRule twoEvents [goodEvent, badEvent]) (newCalls freshState (at_return r))"
    by (simp add: demo_camel)
  from t b demo_two_events[of True] have
    g: "GetUniqueSessionKey (SingleEvent goodEvent) None \<in> set (newCalls demoReady st2)"
       "GetUniqueSessionKey (SingleEvent badEvent) None \<in> set (newCalls demoReady st2)"
       "\<exists>s. UpdateSession s (SingleEvent goodEvent) \<in> set (newCalls demoReady st2)"
    by (simp_all add: demo_bob_key)
  from m f u' r p g b ne show ?thesis by simp
qed

subsection \<open>Admission\<close>

text \<open>
  C7, as amended. For every null, undefined or otherwise falsy body (\<^verbatim>\<open>false\<close>, \<^verbatim>\<open>0\<close>, the
  empty string) the request handler fails with the missing-argument error and the state is
  what it was: the store and the connector have not been called, \<^verbatim>\<open>init\<close> included. An
  empty object is truthy and is not refused.
\<close>

theorem falsy_body_is_refused:
  "\<not> truthy inputBody \<Longrightarrow>
   requestHandler n seen self env st inputBody rc =
     Some \<lparr>returned = Inl MissingArgument, at_return = st, in_the_end = Some st\<rparr>"
  by (simp add: requestHandler_def reject_def)

theorem falsy_body_is_refused_witness:
  "requestHandler 2 0 (demoBot True) demoEnv freshState Null None =
     Some \<lparr>returned = Inl MissingArgument, at_return = freshState, in_the_end = Some freshState\<rparr>
   \<and> requestHandler 2 0 (demoBot False) demoEnv demoReady (JStr []) None =
     Some \<lparr>returned = Inl MissingArgument, at_return = demoReady, in_the_end = Some demoReady\<rparr>"
  using falsy_body_is_refused[of Null 2 0 "demoBot True" demoEnv freshState None]
    falsy_body_is_refused[of "JStr []" 2 0 "demoBot False" demoEnv demoReady None]
  by simp

text \<open>The empty object as the body: the store is initialized, the connector is asked for
  the events and for a session key, and the handler runs and answers.\<close>

theorem an_empty_object_is_admitted:
  "requestHandler 2 0 (demoBot True) demoEnv freshState (JObj []) None =
     Some \<lparr>returned = Inr (JStr ''ok''),
           at_return = \<lparr>initialized = True, store = [],
             calls = [StoreInit, MapRequestToEvents (JObj []),
                      GetUniqueSessionKey (WholeBody (JObj [])) None,
                      CreateContext (JObj []) None],
             console = []\<rparr>,
           in_the_end = Some \<lparr>initialized = True, store = [],
             calls = [StoreInit, MapRequestToEvents (JObj []),
                      GetUniqueSessionKey (WholeBody (JObj [])) None,
                      CreateContext (JObj []) None],
             console = []\<rparr>\<rparr>"
  by code_simp

subsection \<open>The blocking mode\<close>

text \<open>
  C10. In blocking mode, for a truthy body that the connector maps to no event, the request
  handler always returns with a failure, never with a value; when the store's
  initialization succeeds and a handler is registered, the failure is the type error of
  reading \<^verbatim>\<open>response\<close> of the element 0 of the empty array of contexts.
\<close>

theorem no_events_in_blocking_mode:
  assumes "sync self" and "truthy inputBody"
    and "mapRequestToEvents (connector_of self) (camelcaseKeysDeep env inputBody) = Inr []"
  shows "\<exists>r. requestHandler n seen self env st inputBody rc = Some r \<and>
           (\<exists>e. returned r = Inl e) \<and>
           (\<forall>st1 h. initSessionStore (sessions self) st = (st1, Inr ()) \<longrightarrow> handler self = Some h
              \<longrightarrow> returned r = Inl TypeError)"
proof -
  obtain st1 r1 where i: "initSessionStore (sessions self) st = (st1, r1)"
    by (cases "initSessionStore (sessions self) st")
  have b: "buildAll self (camelcaseKeysDeep env inputBody) rc st1 =
             (logCall (MapRequestToEvents (camelcaseKeysDeep env inputBody)) st1, Inr [],
              logCall (MapRequestToEvents (camelcaseKeysDeep env inputBody)) st1)"
    using assms(3) by (simp add: buildAll_def Let_def pMap_nil)
  have bl: "blocking seen (sessions self) (Date_now env) [] ([] :: 'b task list) s =
              Some \<lparr>returned = Inl TypeError, at_return = s, in_the_end = Some s\<rparr>" for s :: "'a state"
    by (simp add: blocking_def afterTasks_def promiseAll_def rejections_def consoleError_def
        firstResponse_def)
  show ?thesis
  proof (cases r1)
    case (Inl e)
    with assms i show ?thesis by (simp add: requestHandler_def reject_def)
  next
    case (Inr u)
    show ?thesis
    proof (cases "handler self")
      case None
      with assms i Inr b show ?thesis by (simp add: requestHandler_def reject_def)
    next
      case (Some h)
      with assms i Inr b bl show ?thesis by (simp add: requestHandler_def)
    qed
  qed
qed

theorem no_events_in_blocking_mode_witness:
  "(case requestHandler 2 0 (demoBot True) demoEnv freshState noEvents None of
      None \<Rightarrow> False
    | Some r \<Rightarrow> returned r = Inl TypeError)"
proof -
  have s: "sync (demoBot True)" and h: "handler (demoBot True) = Some ''reply''"
    by (simp_all add: demoBot_def)
  have t: "truthy noEvents" by (simp add: noEvents_def)
  have m: "mapRequestToEvents (connector_of (demoBot True)) (camelcaseKeysDeep demoEnv noEvents) = Inr []"
    by (simp add: demoBot_def demoConnector_def demoEnv_def noEvents_def field_def)
  from no_events_in_blocking_mode[OF s t m, of 2 0 freshState None] demo_init h
  show ?thesis by auto
qed

text \<open>
  C1, as amended. In blocking mode, when the task of some context is rejected (its handler
  failed and no error handler recovered it), the request handler still returns without
  raising; no session of the request is written, those of the contexts whose handlers
  succeeded included: the call log and the store are as the construction of the contexts
  left them; the rejection is passed to \<^verbatim>\<open>console.error\<close>; and the value returned is the
  response slot of the first context as it is when the rejection surfaces.
\<close>

theorem unrecovered_failure_skips_persistence:
  assumes "sync self" and "truthy inputBody"
    and i: "initSessionStore (sessions self) st = (st1, Inr ())"
    and b: "buildContexts self (camelcaseKeysDeep env inputBody) rc st1 = (st2, Inr (c # cs))"
    and h: "handler self = Some h"
    and rej: "rejections (map (runTask n (behaviour_of env) (handlerDidEnd (connector_of self)) h
                (errorHandler self)) (c # cs)) \<noteq> []"
  shows "\<exists>r. requestHandler n seen self env st inputBody rc = Some r \<and>
           writes (at_return r) = writes st \<and>
           calls (at_return r) = calls st2 \<and>
           store (at_return r) = store st2 \<and>
           console (at_return r) = console st2 @
             [rejections (map (runTask n (behaviour_of env) (handlerDidEnd (connector_of self)) h
                (errorHandler self)) (c # cs))] \<and>
           returned r =
             Inr (response (apply_ops
               (take seen (rs_ops (t_state (runTask n (behaviour_of env)
                  (handlerDidEnd (connector_of self)) h (errorHandler self) c)))) c))"
proof -
  let ?run = "runTask n (behaviour_of env) (handlerDidEnd (connector_of self)) h (errorHandler self)"
  let ?ts = "map ?run (c # cs)"
  let ?st3 = "st2\<lparr>console := console st2 @ [rejections ?ts]\<rparr>"
  note b' = buildContexts_success[OF b]
  have r: "requestHandler n seen self env st inputBody rc =
        Some \<lparr>returned = firstResponse seen (c # cs) ?ts, at_return = ?st3, in_the_end = Some ?st3\<rparr>"
    using assms(1,2) i b' h blocking_rejected[OF rej]
    by (simp add: requestHandler_def Let_def)
  have f: "firstResponse seen (c # cs) ?ts =
             Inr (response (apply_ops (take seen (rs_ops (t_state (?run c)))) c))"
    using rej by (simp add: firstResponse_def promiseAll_def)
  have w: "writes st2 = writes st"
    using initSessionStore_writes[OF i] buildContexts_writes[OF b] by simp
  from r f w show ?thesis by (simp add: writes_def)
qed

theorem unrecovered_failure_skips_persistence_witness:
  "(case requestHandler 2 2 (demoBot True) demoEnv freshState twoEvents None of
      None \<Rightarrow> False
    | Some r \<Rightarrow> writes (at_return r) = [] \<and>
                console (at_return r) = [[Thrown (JStr ''boom'')]] \<and>
                returned r = Inr (JStr ''ok''))"
proof -
  obtain st2 where b: "buildContexts (demoBot True) (camelcaseKeysDeep demoEnv twoEvents) None demoReady
                         = (st2, Inr (bobContext # [annContext]))"
    using demo_two_built
    by (cases "buildContexts (demoBot True) twoEvents None demoReady") (simp add: demo_camel)
  have c: "console st2 = []" using demo_two_built_console b by (simp add: demo_camel)
  have s: "sync (demoBot True)" and h: "handler (demoBot True) = Some ''reply''"
    by (simp_all add: demoBot_def)
  have t: "truthy twoEvents" by (simp add: twoEvents_def)
  have rj: "rejections (map (runTask 2 (behaviour_of demoEnv) (handlerDidEnd (connector_of (demoBot True)))
      ''reply'' (errorHandler (demoBot True))) (bobContext # [annContext])) \<noteq> []"
    by (simp add: demo_two_rejections)
  from unrecovered_failure_skips_persistence[OF s t demo_init b h rj, of 2] c
  show ?thesis
    by (auto simp: demo_two_rejections demo_bob_seen demo_fresh_writes)
qed

text \<open>Two events, the first handled well by a context that holds a session, the second
  failing with no error handler: nothing is written.\<close>

theorem one_failure_leaves_every_session_unwritten:
  "sync (demoBot True) \<and> errorHandler (demoBot True) = None \<and>
   snd (buildContexts (demoBot True) twoEvents None demoReady) = Inr [bobContext, annContext] \<and>
   map t_outcome (map demoTask [bobContext, annContext]) =
     [Fulfilled, Rejected (Thrown (JStr ''boom''))] \<and>
   session (rs_context (t_state (demoTask bobContext))) =
     Some \<lparr>entries = [(''id'', JStr ''demo:bob''), (''platform'', JStr ''demo''),
                      (''user'', JStr ''bob''), (''count'', JNum 1)],
           readonly = [''platform'', ''id'']\<rparr> \<and>
   map_option (writes \<circ> at_return)
     (requestHandler 2 3 (demoBot True) demoEnv freshState twoEvents None) = Some [] \<and>
   map_option (store \<circ> at_return)
     (requestHandler 2 3 (demoBot True) demoEnv freshState twoEvents None) = Some []"
  using demo_two_built demo_two_outcomes demo_bob_session_after demo_two_writes demo_two_store
  by (simp add: demoBot_def)

text \<open>
  C2, as amended. In blocking mode, when every task is fulfilled, the request handler
  returns, after persistence, the response slot of the first context as its task left it,
  whatever the value is (the test for a non-empty object only decides whether the response
  is reported to the debug log). The value depends on the first context alone: the responses
  of the other contexts are not merged in, and a failed write does not change it.
\<close>

theorem first_response_is_returned:
  assumes "sync self" and "truthy inputBody"
    and i: "initSessionStore (sessions self) st = (st1, Inr ())"
    and b: "buildContexts self (camelcaseKeysDeep env inputBody) rc st1 = (st2, Inr (c # cs))"
    and h: "handler self = Some h"
    and ful: "promiseAll (map (runTask n (behaviour_of env) (handlerDidEnd (connector_of self)) h
                (errorHandler self)) (c # cs)) = AllFulfilled"
  shows "\<exists>r. requestHandler n seen self env st inputBody rc = Some r \<and>
           returned r =
             Inr (response (rs_context (t_state (runTask n (behaviour_of env)
                  (handlerDidEnd (connector_of self)) h (errorHandler self) c))))"
proof -
  let ?run = "runTask n (behaviour_of env) (handlerDidEnd (connector_of self)) h (errorHandler self)"
  let ?ts = "map ?run (c # cs)"
  note b' = buildContexts_success[OF b]
  obtain st3 cs3 errs where p:
    "persistAll (sessions self) (Date_now env) 0 (map (rs_context \<circ> t_state) ?ts) st2 = (st3, cs3, errs)"
    by (cases "persistAll (sessions self) (Date_now env) 0 (map (rs_context \<circ> t_state) ?ts) st2") auto
  have "blocking seen (sessions self) (Date_now env) (c # cs) ?ts st2 =
          Some \<lparr>returned = firstResponse seen (c # cs) ?ts, at_return = consoleError errs st3,
                in_the_end = Some (consoleError errs st3)\<rparr>"
    using ful p by (simp add: blocking_def afterTasks_def)
  moreover have "firstResponse seen (c # cs) ?ts = Inr (response (rs_context (t_state (?run c))))"
    using ful by (simp add: firstResponse_def)
  ultimately show ?thesis
    using assms(1,2) i b' h by (simp add: requestHandler_def Let_def)
qed

theorem first_response_is_returned_witness:
  "(case requestHandler 2 0 (demoBot True) demoEnv freshState goodEvent None of
      None \<Rightarrow> False
    | Some r \<Rightarrow> returned r = Inr (JStr ''ok''))"
proof -
  obtain st2 where b: "buildContexts (demoBot True) (camelcaseKeysDeep demoEnv goodEvent) None demoReady
                         = (st2, Inr (bobContext # []))"
    using demo_plain_built
    by (cases "buildContexts (demoBot True) goodEvent None demoReady") (simp add: demo_camel)
  have s: "sync (demoBot True)" and h: "handler (demoBot True) = Some ''reply''"
    by (simp_all add: demoBot_def)
  have t: "truthy goodEvent" by (simp add: goodEvent_def)
  have f: "promiseAll (map (runTask 2 (behaviour_of demoEnv)
      (handlerDidEnd (connector_of (demoBot True))) ''reply'' (errorHandler (demoBot True)))
      (bobContext # [])) = AllFulfilled"
    by (simp add: demo_plain_fulfilled)
  from first_response_is_returned[OF s t demo_init b h f, of 0]
  show ?thesis by (auto simp: demo_plain_response)
qed

text \<open>A handler that leaves a string in the response slot: the string is returned, where
  the specification's wording gives nothing.\<close>

theorem a_string_response_is_returned:
  "sync (demoBot True) \<and>
   snd (buildContexts (demoBot True) oneEvent None demoReady) = Inr [bobContext] \<and>
   t_outcome (demoTask bobContext) = Fulfilled \<and>
   response (rs_context (t_state (demoTask bobContext))) = JStr ''ok'' \<and>
   structuredOrNothing (JStr ''ok'') = Undefined \<and>
   map_option returned (requestHandler 2 0 (demoBot True) demoEnv freshState oneEvent None)
     = Some (Inr (JStr ''ok''))"
  using demo_one_built demo_bob_outcome demo_bob_response demo_one_returned
  by (simp add: demoBot_def structuredOrNothing_def)

subsection \<open>The fire-and-forget mode\<close>

text \<open>
  C9. In fire-and-forget mode the request handler always returns; what it gives is
  \<^verbatim>\<open>undefined\<close> or a failure, never a response; when it returns, no session has been written;
  and if, in the end, sessions have been written, then the contexts were built and every
  task was fulfilled.
\<close>

theorem fire_and_forget_returns_nothing:
  assumes "\<not> sync self"
  shows "\<exists>r. requestHandler n seen self env st inputBody rc = Some r \<and>
           (returned r = Inr Undefined \<or> (\<exists>e. returned r = Inl e)) \<and>
           writes (at_return r) = writes st \<and>
           (\<forall>st'. in_the_end r = Some st' \<longrightarrow> writes st' \<noteq> writes st \<longrightarrow>
              (\<exists>st1 contexts h.
                 initSessionStore (sessions self) st = (st1, Inr ()) \<and>
                 buildContexts self (camelcaseKeysDeep env inputBody) rc st1 =
                   (at_return r, Inr contexts) \<and>
                 handler self = Some h \<and>
                 promiseAll (map (runTask n (behaviour_of env) (handlerDidEnd (connector_of self)) h
                   (errorHandler self)) contexts) = AllFulfilled))"
proof (cases "truthy inputBody")
  case False
  then show ?thesis by (simp add: requestHandler_def reject_def)
next
  case True
  obtain st1 r1 where i: "initSessionStore (sessions self) st = (st1, r1)"
    by (cases "initSessionStore (sessions self) st")
  note w1 = initSessionStore_writes[OF i]
  show ?thesis
  proof (cases r1)
    case (Inl e)
    with True i w1 show ?thesis by (simp add: requestHandler_def reject_def)
  next
    case (Inr u)
    obtain st2 r2 st3 where b: "buildAll self (camelcaseKeysDeep env inputBody) rc st1 = (st2, r2, st3)"
      by (cases "buildAll self (camelcaseKeysDeep env inputBody) rc st1") auto
    note w2 = buildAll_writes[OF b]
    from b have bc: "buildContexts self (camelcaseKeysDeep env inputBody) rc st1 = (st2, r2)"
      by (auto simp: buildContexts_buildAll)
    show ?thesis
    proof (cases r2)
      case (Inl e)
      with True i Inr b w1 w2 show ?thesis by (simp add: requestHandler_def)
    next
      case ctxs: (Inr contexts)
      show ?thesis
      proof (cases "handler self")
        case None
        with True i Inr b ctxs w1 w2 show ?thesis by (simp add: requestHandler_def reject_def)
      next
        case (Some h)
        let ?ts = "map (runTask n (behaviour_of env) (handlerDidEnd (connector_of self)) h
                         (errorHandler self)) contexts"
        have r: "requestHandler n seen self env st inputBody rc =
                   Some (fireAndForget (sessions self) (Date_now env) ?ts st2)"
          using assms True i Inr b ctxs Some by (simp add: requestHandler_def Let_def)
        have "promiseAll ?ts = AllFulfilled"
          if "in_the_end (fireAndForget (sessions self) (Date_now env) ?ts st2) = Some st'"
            and "writes st' \<noteq> writes st" for st'
        proof (rule ccontr)
          assume nf: "promiseAll ?ts \<noteq> AllFulfilled"
          from that(1) obtain cs' where a: "afterTasks (sessions self) (Date_now env) ?ts st2 = Some (st', cs')"
            by (auto simp: fireAndForget_def)
          from afterTasks_unfulfilled[OF a nf] have "writes st' = writes st2" by (simp add: writes_def)
          with w1 w2 that(2) show False by simp
        qed
        with r i Inr bc ctxs Some w1 w2 show ?thesis
          by (auto simp: fireAndForget_def)
      qed
    qed
  qed
qed

theorem fire_and_forget_returns_nothing_witness:
  "(case requestHandler 2 0 (demoBot False) demoEnv freshState oneEvent None of
      None \<Rightarrow> False
    | Some r \<Rightarrow>
        returned r = Inr Undefined \<and> writes (at_return r) = [] \<and>
        map_option writes (in_the_end r) =
          Some [StoreWrite (JStr ''demo:bob'')
            \<lparr>entries = [(''id'', JStr ''demo:bob''), (''platform'', JStr ''demo''),
                        (''user'', JStr ''bob''), (''count'', JNum 1), (''lastActivity'', JNum 1000)],
             readonly = [''platform'', ''id'']\<rparr>])"
proof -
  have s: "\<not> sync (demoBot False)" by (simp add: demoBot_def)
  from fire_and_forget_returns_nothing[OF s, of 2 0 demoEnv freshState oneEvent None]
    demo_async_returned demo_async_later
  show ?thesis by (auto simp: demo_fresh_writes)
qed

subsection \<open>The initialization of the store\<close>

lemma init_step_initialized:
  assumes "initialized (im_state m)"
  shows "initialized (im_state (init_step sto ev m)) \<and>
         calls (im_state (init_step sto ev m)) = calls (im_state m)"
proof (cases ev)
  case (Arrive r)
  with assms show ?thesis by (simp add: initSessionStore_enter_def)
next
  case (InitSettled r)
  with assms show ?thesis
    by (auto simp: initSessionStore_resume_def split: option.splits sum.splits)
qed

lemma fold_init_step_initialized:
  "initialized (im_state m) \<Longrightarrow>
   initialized (im_state (fold (init_step sto) evs m)) \<and>
   calls (im_state (fold (init_step sto) evs m)) = calls (im_state m)"
proof (induction evs arbitrary: m)
  case Nil
  then show ?case by simp
next
  case (Cons ev evs)
  from init_step_initialized[OF Cons.prems, of sto ev] Cons.IH[of "init_step sto ev m"]
  show ?case by simp
qed

text \<open>
  C8, as amended. Once a call of the store's \<^verbatim>\<open>init\<close> has completed successfully and the
  flag is set, no request calls \<^verbatim>\<open>init\<close> again, under any schedule. Requests that arrive one
  after the other, each after the initialization of the previous one has settled, call
  \<^verbatim>\<open>init\<close> exactly once when the first call succeeds. A request that arrives while the flag
  is not yet set calls \<^verbatim>\<open>init\<close> itself.
\<close>

theorem init_not_repeated_once_completed:
  "(initialized st \<longrightarrow> initCalls (init_schedule sto evs st) = initCalls st)
   \<and> (\<not> initialized st \<longrightarrow> store_init sto (store st) = Inr s' \<longrightarrow>
        initCalls (init_schedule sto (one_by_one (r # rs)) st) = Suc (initCalls st))"
proof (intro conjI impI)
  assume "initialized st"
  then show "initCalls (init_schedule sto evs st) = initCalls st"
    using fold_init_step_initialized[of "\<lparr>im_state = st, im_waiting = []\<rparr>" sto evs]
    by (simp add: init_schedule_def initCalls_def)
next
  assume a: "\<not> initialized st" "store_init sto (store st) = Inr s'"
  let ?m = "init_step sto (InitSettled r) (init_step sto (Arrive r) \<lparr>im_state = st, im_waiting = []\<rparr>)"
  have m: "initialized (im_state ?m) \<and> calls (im_state ?m) = calls st @ [StoreInit]"
    using a by (simp add: initSessionStore_enter_def initSessionStore_resume_def logCall_def)
  from fold_init_step_initialized[of ?m sto "one_by_one rs"] m
  show "initCalls (init_schedule sto (one_by_one (r # rs)) st) = Suc (initCalls st)"
    by (simp add: init_schedule_def initCalls_def one_by_one_def)
qed

theorem init_not_repeated_once_completed_witness:
  "initCalls (init_schedule memoryStore [Arrive 1, Arrive 2, InitSettled 1] demoReady) = 1
   \<and> initCalls (init_schedule memoryStore (one_by_one [1, 2, 3]) freshState) = 1"
  using init_not_repeated_once_completed[of demoReady memoryStore "[Arrive 1, Arrive 2, InitSettled 1]"]
    init_not_repeated_once_completed[of freshState memoryStore _ "[]" 1 "[2, 3]"]
  by (simp add: demoReady_def freshState_def memoryStore_def initCalls_def)

text \<open>Two requests that both arrive before the first initialization has settled.\<close>

theorem two_arrivals_before_completion_call_init_twice:
  "initCalls (init_schedule memoryStore [Arrive 1, Arrive 2, InitSettled 1, InitSettled 2] freshState) = 2"
  by code_simp

subsection \<open>Sessions\<close>

lemma get_update: "get (s\<lparr>entries := AList.update k v (entries s)\<rparr>) k' = (if k' = k then v else get s k')"
  by (simp add: get_def update_conv')

lemma get_delete: "k' \<noteq> k \<Longrightarrow> get (s\<lparr>entries := AList.delete k (entries s)\<rparr>) k' = get s k'"
  by (simp add: get_def delete_conv')

lemma get_readonly_update [simp]: "get (s\<lparr>readonly := r\<rparr>) k = get s k"
  by (simp add: get_def)

lemma apply_session_op_readonly [simp]: "readonly (apply_session_op so s) = readonly s"
  by (cases so) simp_all

lemma apply_session_op_get:
  assumes "k \<in> set (readonly s)"
  shows "get (apply_session_op so s) k = get s k"
proof (cases so)
  case (Assign k' v)
  with assms show ?thesis by (auto simp: get_update)
next
  case (Delete k')
  show ?thesis
  proof (cases "k' \<in> set (readonly s)")
    case True
    with Delete show ?thesis by simp
  next
    case False
    with assms have "k \<noteq> k'" by auto
    with Delete False show ?thesis by (simp add: get_delete)
  qed
qed

lemma apply_session_ops_keep:
  "readonly (apply_session_ops ops s) = readonly s \<and>
   (k \<in> set (readonly s) \<longrightarrow> get (apply_session_ops ops s) k = get s k)"
  unfolding apply_session_ops_def
  by (induction ops arbitrary: s) (simp_all add: apply_session_op_get)

lemma apply_session_op_identity:
  "fixed s \<Longrightarrow> fixed (apply_session_op so s) \<and> identity (apply_session_op so s) = identity s"
  by (simp add: fixed_def identity_def apply_session_op_get)

lemma apply_session_ops_identity:
  "fixed s \<Longrightarrow> fixed (apply_session_ops ops s) \<and> identity (apply_session_ops ops s) = identity s"
  using apply_session_ops_keep[of ops s] by (simp add: fixed_def identity_def)

lemma settledIdentity_sessionIdentity: "settledIdentity i c \<Longrightarrow> sessionIdentity c = Some i"
  by (auto simp: settledIdentity_def sessionIdentity_def split: option.splits)

lemma apply_op_identity: "settledIdentity i c \<Longrightarrow> settledIdentity i (apply_op co c)"
  by (cases co) (auto simp: settledIdentity_def apply_session_op_identity split: option.splits)

lemma apply_ops_identity: "settledIdentity i c \<Longrightarrow> settledIdentity i (apply_ops ops c)"
  unfolding apply_ops_def by (induction ops arbitrary: c) (simp_all add: apply_op_identity)

lemma runPlugins_identity:
  "runPlugins exts c = Inr c' \<Longrightarrow> settledIdentity i c \<Longrightarrow> settledIdentity i c'"
proof (induction exts arbitrary: c)
  case Nil
  then show ?case by simp
next
  case (Cons ext exts)
  obtain ops e where x: "ext c = (ops, e)" by (cases "ext c")
  with Cons.prems(1) have e: "e = None" and r: "runPlugins exts (apply_ops ops c) = Inr c'"
    by (auto split: option.splits)
  from Cons.IH[OF r apply_ops_identity[OF Cons.prems(2)]] show ?case .
qed

lemma apply_ops_append: "apply_ops (xs @ ys) c = apply_ops ys (apply_ops xs c)"
  by (simp add: apply_ops_def)

lemma replays_start: "replays c (start c)"
  by (simp add: replays_def start_def apply_ops_def)

lemma invoke_replays: "invoke call f p s = (s', r) \<Longrightarrow> replays c s \<Longrightarrow> replays c s'"
  by (auto simp: invoke_def replays_def apply_ops_append split: prod.splits)

lemma run_loop_replays: "run_loop n call d s = (s', st) \<Longrightarrow> replays c s \<Longrightarrow> replays c s'"
proof (induction n arbitrary: d s)
  case 0
  then show ?case by (cases d) auto
next
  case (Suc n)
  show ?case
  proof (cases d)
    case (Value w)
    with Suc.prems show ?thesis by simp
  next
    case (Action f)
    obtain s1 r where inv: "invoke call f [] s = (s1, r)" by (cases "invoke call f [] s")
    note rp = invoke_replays[OF inv Suc.prems(2)]
    show ?thesis
    proof (cases r)
      case (Inl e)
      with Suc.prems(1) Action inv rp show ?thesis by simp
    next
      case (Inr nd)
      with Suc.prems(1) Action inv have "run_loop n call nd s1 = (s', st)" by simp
      from Suc.IH[OF this rp] show ?thesis .
    qed
  qed
qed

lemma run_replays: "run n call a c p = (s', st) \<Longrightarrow> replays c s'"
proof (cases a)
  case (Value w)
  assume "run n call a c p = (s', st)"
  with Value show ?thesis by (auto simp: run_def replays_start)
next
  case (Action f)
  assume r: "run n call a c p = (s', st)"
  obtain s1 res where inv: "invoke call f p (start c) = (s1, res)"
    by (cases "invoke call f p (start c)")
  note rp = invoke_replays[OF inv replays_start]
  show ?thesis
  proof (cases res)
    case (Inl e)
    with r Action inv rp show ?thesis by (auto simp: run_def)
  next
    case (Inr nd)
    with r Action inv have "run_loop n call nd s1 = (s', st)" by (simp add: run_def)
    from run_loop_replays[OF this rp] show ?thesis .
  qed
qed

lemma mutate_replays: "replays c s \<Longrightarrow> replays c (mutate ops s)"
  by (simp add: replays_def mutate_def apply_ops_append)

lemma andThen_replays: "replays c s \<Longrightarrow> replays (rs_context s) s2 \<Longrightarrow> replays c (andThen s s2)"
  by (simp add: replays_def andThen_def apply_ops_append)

lemma onFailure_replays: "replays c s \<Longrightarrow> replays c (t_state (onFailure n call eh e s))"
proof (cases eh)
  case None
  assume "replays c s"
  with None show ?thesis by (simp add: onFailure_def emitAndThrow_def)
next
  case (Some g)
  assume a: "replays c s"
  obtain s2 st where r: "run n call (Action g) (rs_context s) [(''error'', PErr e)] = (s2, st)"
    by (cases "run n call (Action g) (rs_context s) [(''error'', PErr e)]")
  from andThen_replays[OF a run_replays[OF r]] Some r show ?thesis
    by (cases st) (simp_all add: onFailure_def emitAndThrow_def)
qed

lemma runTask_replays: "replays c (t_state (runTask n call hook h eh c))"
proof -
  obtain s st where r: "run n call (Action h) c [] = (s, st)"
    by (cases "run n call (Action h) c []")
  note rp = run_replays[OF r]
  show ?thesis
  proof (cases st)
    case (Returned d)
    show ?thesis
    proof (cases hook)
      case None
      with r Returned rp show ?thesis by (simp add: runTask_def)
    next
      case (Some didEnd)
      obtain ops e where d: "didEnd (rs_context s) = (ops, e)" by (cases "didEnd (rs_context s)")
      with r Returned Some rp show ?thesis
        by (cases e) (simp_all add: runTask_def mutate_replays onFailure_replays)
    qed
  next
    case (Threw e)
    with r rp show ?thesis by (simp add: runTask_def onFailure_replays)
  next
    case OutOfFuel
    with r rp show ?thesis by (simp add: runTask_def)
  qed
qed

lemma defineProperty_result:
  assumes "defineProperty s k v = Inr s'"
  shows "k \<in> set (readonly s') \<and> get s' k = v \<and> set (readonly s) \<subseteq> set (readonly s') \<and>
         (\<forall>k'. k' \<noteq> k \<longrightarrow> get s' k' = get s k')"
proof (cases "k \<in> set (readonly s)")
  case True
  with assms have "s' = s" "get s k = v" by (auto simp: defineProperty_def split: if_splits)
  with True show ?thesis by simp
next
  case False
  with assms have "s' = s\<lparr>entries := AList.update k v (entries s), readonly := k # readonly s\<rparr>"
    by (simp add: defineProperty_def)
  then show ?thesis by (auto simp: get_def update_conv')
qed

lemma assign_result:
  assumes "assign s k v = Inr s'"
  shows "readonly s' = readonly s \<and> get s' k = v \<and> (\<forall>k'. k' \<noteq> k \<longrightarrow> get s' k' = get s k')"
proof -
  from assms have "s' = s\<lparr>entries := AList.update k v (entries s)\<rparr>"
    by (auto simp: assign_def split: if_splits)
  then show ?thesis by (simp add: get_update)
qed

lemma fixIdentity_result:
  assumes "fixIdentity s0 sid plat = Inr s"
  shows "fixed s \<and>
         get s ''id'' = (if truthy (get s0 ''id'') then get s0 ''id'' else JStr sid) \<and>
         get s ''platform'' = (if truthy (get s0 ''platform'') then get s0 ''platform'' else JStr plat)"
proof -
  let ?v = "if truthy (get s0 ''id'') then get s0 ''id'' else JStr sid"
  from assms obtain s1 where d1: "defineProperty s0 ''id'' ?v = Inr s1"
    by (auto simp: fixIdentity_def split: sum.splits)
  note r1 = defineProperty_result[OF d1]
  from r1 have p1: "get s1 ''platform'' = get s0 ''platform''" by simp
  from assms d1 obtain s2 where
    a: "(if \<not> truthy (get s1 ''platform'') then assign s1 ''platform'' (JStr plat) else Inr s1) = Inr s2"
    and d2: "defineProperty s2 ''platform'' (get s2 ''platform'') = Inr s"
    by (auto simp: fixIdentity_def split: sum.splits)
  have s2: "readonly s2 = readonly s1 \<and> get s2 ''id'' = get s1 ''id'' \<and>
            get s2 ''platform'' = (if truthy (get s0 ''platform'') then get s0 ''platform'' else JStr plat)"
  proof (cases "truthy (get s1 ''platform'')")
    case True
    with a p1 show ?thesis by simp
  next
    case False
    with a have "assign s1 ''platform'' (JStr plat) = Inr s2" by simp
    from assign_result[OF this] False p1 show ?thesis by simp
  qed
  note r2 = defineProperty_result[OF d2]
  from r1 s2 r2 have "''id'' \<in> set (readonly s)" by auto
  moreover from r2 have "''platform'' \<in> set (readonly s)" by simp
  moreover from r2 s2 r1 have "get s ''id'' = ?v" by simp
  moreover from r2 s2 have "get s ''platform'' =
      (if truthy (get s0 ''platform'') then get s0 ''platform'' else JStr plat)" by simp
  ultimately show ?thesis by (simp add: fixed_def)
qed

lemma fixIdentity_succeeds:
  assumes "''id'' \<notin> set (readonly s0)" "''platform'' \<notin> set (readonly s0)"
  shows "\<exists>s. fixIdentity s0 sid plat = Inr s"
proof -
  let ?v = "if truthy (get s0 ''id'') then get s0 ''id'' else JStr sid"
  let ?s1 = "s0\<lparr>entries := AList.update ''id'' ?v (entries s0), readonly := ''id'' # readonly s0\<rparr>"
  have d1: "defineProperty s0 ''id'' ?v = Inr ?s1" using assms(1) by (simp add: defineProperty_def)
  have np: "''platform'' \<notin> set (readonly ?s1)" using assms(2) by simp
  obtain s2 where a: "(if \<not> truthy (get ?s1 ''platform'') then assign ?s1 ''platform'' (JStr plat)
                       else Inr ?s1) = Inr s2" and ro: "readonly s2 = readonly ?s1"
    using np by (cases "truthy (get ?s1 ''platform'')") (auto simp: assign_def)
  have "\<exists>s. defineProperty s2 ''platform'' (get s2 ''platform'') = Inr s"
    using np ro by (simp add: defineProperty_def)
  with d1 a show ?thesis unfolding fixIdentity_def by (auto simp del: truthy.simps)
qed

lemma fixIdentity_empty:
  "fixIdentity emptySession sid plat =
     Inr \<lparr>entries = [(''id'', JStr sid), (''platform'', JStr plat)], readonly = [''platform'', ''id'']\<rparr>"
  by (simp add: fixIdentity_def defineProperty_def assign_def emptySession_def get_def)

lemma persist_identity:
  assumes p: "persist sto now c st = (st', c', errs)" and i: "settledIdentity i c"
  shows "settledIdentity i c' \<and>
         list_all (\<lambda>w. \<exists>s. w = StoreWrite (fst i) s \<and> identity s = i) (newCalls st st')"
proof -
  from i obtain s where s: "session c = Some s" "fixed s" "identity s = i"
    by (auto simp: settledIdentity_def split: option.splits)
  show ?thesis
  proof (cases "assign s ''lastActivity'' (JNum now)")
    case (Inl e)
    with p s have "st' = st" "c' = c\<lparr>isSessionWritten := True\<rparr>"
      by (simp_all add: persist_def Let_def)
    with s show ?thesis by (simp add: settledIdentity_def newCalls_def)
  next
    case (Inr s')
    note r = assign_result[OF Inr]
    from r s have fx: "fixed s'" "identity s' = i" by (auto simp: fixed_def identity_def)
    from p s Inr have c': "c' = c\<lparr>isSessionWritten := True, session := Some s'\<rparr>"
      by (auto simp: persist_def Let_def split: sum.splits)
    from p s Inr have "calls st' = calls st @ [StoreWrite (get s' ''id'') s']"
      by (auto simp: persist_def Let_def logCall_def split: sum.splits)
    then have "newCalls st st' = [StoreWrite (get s' ''id'') s']" by (simp add: newCalls_def)
    moreover from fx have "get s' ''id'' = fst i" by (auto simp: identity_def)
    ultimately show ?thesis using fx c' by (simp add: settledIdentity_def)
  qed
qed

text \<open>
  C5. For an event for which the connector gives a non-empty session key, the store is read
  at the connector's platform, a colon and the key. If the record read (the empty record when
  the store has none) does not already hold a non-writable \<^verbatim>\<open>id\<close> or \<^verbatim>\<open>platform\<close>,
  \<^verbatim>\<open>updateSession\<close> is called; and whenever \<^verbatim>\<open>updateSession\<close> is called, it is the third call,
  and the session it is handed has \<^verbatim>\<open>id\<close> and \<^verbatim>\<open>platform\<close> fixed, \<^verbatim>\<open>id\<close> being the stored
  one if truthy and the composed session id otherwise, \<^verbatim>\<open>platform\<close> the stored one if truthy
  and the connector's otherwise; from the empty record the session has these two properties
  and no other.
\<close>

theorem session_is_resolved_from_key:
  assumes key: "getUniqueSessionKey (connector_of self) (payloadFor k body ev) rc = Inr (Some key)"
    and ne: "key \<noteq> []"
    and rd: "store_read (sessions self) (store st) (platform (connector_of self) @ '':'' @ key)
               = Inr stored"
    and s0: "s0 = (case stored of None \<Rightarrow> emptySession | Some s \<Rightarrow> s)"
  shows "\<exists>st' res.
           mapper self k body rc st ev = (st', res) \<and>
           take 2 (newCalls st st') =
             [GetUniqueSessionKey (payloadFor k body ev) rc,
              StoreRead (platform (connector_of self) @ '':'' @ key)] \<and>
           (\<forall>s1 pl. UpdateSession s1 pl \<in> set (newCalls st st') \<longrightarrow>
              take 3 (newCalls st st') =
                [GetUniqueSessionKey (payloadFor k body ev) rc,
                 StoreRead (platform (connector_of self) @ '':'' @ key),
                 UpdateSession s1 (payloadFor k body ev)] \<and>
              fixed s1 \<and>
              get s1 ''id'' =
                (if truthy (get s0 ''id'') then get s0 ''id''
                 else JStr (platform (connector_of self) @ '':'' @ key)) \<and>
              get s1 ''platform'' =
                (if truthy (get s0 ''platform'') then get s0 ''platform''
                 else JStr (platform (connector_of self))) \<and>
              (stored = None \<longrightarrow>
                 entries s1 = [(''id'', JStr (platform (connector_of self) @ '':'' @ key)),
                               (''platform'', JStr (platform (connector_of self)))])) \<and>
           (''id'' \<notin> set (readonly s0) \<longrightarrow> ''platform'' \<notin> set (readonly s0) \<longrightarrow>
              (\<exists>s1. UpdateSession s1 (payloadFor k body ev) \<in> set (newCalls st st')))"
proof -
  let ?pl = "payloadFor k body ev"
  let ?sid = "platform (connector_of self) @ '':'' @ key"
  let ?plat = "platform (connector_of self)"
  let ?st1 = "logCall (StoreRead ?sid) (logCall (GetUniqueSessionKey ?pl rc) st)"
  have n1: "newCalls st ?st1 = [GetUniqueSessionKey ?pl rc, StoreRead ?sid]"
    by (simp add: newCalls_def logCall_def)
  show ?thesis
  proof (cases "fixIdentity s0 ?sid ?plat")
    case (Inl e)
    have "resolveSession self ?pl key (logCall (GetUniqueSessionKey ?pl rc) st) = (?st1, Inl e)"
      using rd Inl s0 by (simp add: resolveSession_def Let_def logCall_def)
    with key ne have m: "mapper self k body rc st ev = (?st1, Inl e)"
      by (simp add: mapper_def resolveIfKey_def Let_def)
    from fixIdentity_succeeds[of s0 ?sid ?plat] Inl
    have "''id'' \<in> set (readonly s0) \<or> ''platform'' \<in> set (readonly s0)" by auto
    with m n1 show ?thesis by auto
  next
    case (Inr s1)
    note r = fixIdentity_result[OF Inr]
    have em: "entries s1 = [(''id'', JStr ?sid), (''platform'', JStr ?plat)]" if "stored = None"
      using that Inr s0 by (auto simp: fixIdentity_empty)
    let ?st2 = "logCall (UpdateSession s1 ?pl) ?st1"
    have rs: "resolveSession self ?pl key (logCall (GetUniqueSessionKey ?pl rc) st) =
              (?st2, case updateSession (connector_of self) s1 ?pl of
                       Inl e \<Rightarrow> Inl e | Inr ops \<Rightarrow> Inr (apply_session_ops ops s1))"
      using rd Inr s0 by (simp add: resolveSession_def Let_def logCall_def split: sum.splits)
    have "\<exists>st' res rest. mapper self k body rc st ev = (st', res) \<and>
            newCalls st st' = [GetUniqueSessionKey ?pl rc, StoreRead ?sid, UpdateSession s1 ?pl] @ rest \<and>
            (\<forall>s pl. UpdateSession s pl \<notin> set rest)"
    proof (cases "updateSession (connector_of self) s1 ?pl")
      case (Inl e)
      with key ne rs have "mapper self k body rc st ev = (?st2, Inl e)"
        by (simp add: mapper_def resolveIfKey_def Let_def)
      moreover have "newCalls st ?st2 =
          [GetUniqueSessionKey ?pl rc, StoreRead ?sid, UpdateSession s1 ?pl] @ []"
        by (simp add: newCalls_def logCall_def)
      ultimately show ?thesis by (metis empty_iff list.set(1))
    next
      case (Inr ops)
      let ?c = "CreateContext ev (Some (apply_session_ops ops s1))"
      from Inr key ne rs have "mapper self k body rc st ev =
          (logCall ?c ?st2,
           Inr (createContext (connector_of self) ev (Some (apply_session_ops ops s1)) (initialState self) rc))"
        by (simp add: mapper_def resolveIfKey_def Let_def)
      moreover have "newCalls st (logCall ?c ?st2) =
          [GetUniqueSessionKey ?pl rc, StoreRead ?sid, UpdateSession s1 ?pl] @ [?c]"
        by (simp add: newCalls_def logCall_def)
      moreover have "\<forall>s pl. UpdateSession s pl \<notin> set [?c]" by simp
      ultimately show ?thesis by blast
    qed
    then obtain st' res rest where m: "mapper self k body rc st ev = (st', res)"
      and nc: "newCalls st st' = [GetUniqueSessionKey ?pl rc, StoreRead ?sid, UpdateSession s1 ?pl] @ rest"
      and nr: "\<forall>s pl. UpdateSession s pl \<notin> set rest" by blast
    have only: "s = s1 \<and> pl = ?pl" if "UpdateSession s pl \<in> set (newCalls st st')" for s pl
      using that nc nr by auto
    have t2: "take 2 (newCalls st st') = [GetUniqueSessionKey ?pl rc, StoreRead ?sid]"
      and t3: "take 3 (newCalls st st') =
                 [GetUniqueSessionKey ?pl rc, StoreRead ?sid, UpdateSession s1 ?pl]"
      and mem: "UpdateSession s1 ?pl \<in> set (newCalls st st')"
      using nc by simp_all
    show ?thesis
    proof (intro exI conjI allI impI)
      show "mapper self k body rc st ev = (st', res)" by (rule m)
      show "take 2 (newCalls st st') = [GetUniqueSessionKey ?pl rc, StoreRead ?sid]" by (rule t2)
      show "UpdateSession s1 ?pl \<in> set (newCalls st st')" by (rule mem)
    next
      fix s pl assume a: "UpdateSession s pl \<in> set (newCalls st st')"
      from only[OF a] t3
      show "take 3 (newCalls st st') =
              [GetUniqueSessionKey ?pl rc, StoreRead ?sid, UpdateSession s ?pl]" by simp
      from only[OF a] r show "fixed s" by simp
      from only[OF a] r show "get s ''id'' =
          (if truthy (get s0 ''id'') then get s0 ''id'' else JStr ?sid)" by simp
      from only[OF a] r show "get s ''platform'' =
          (if truthy (get s0 ''platform'') then get s0 ''platform'' else JStr ?plat)" by simp
      assume "stored = None"
      from only[OF a] em[OF this]
      show "entries s = [(''id'', JStr ?sid), (''platform'', JStr ?plat)]" by simp
    qed
  qed
qed

theorem session_is_resolved_from_key_witness:
  "newCalls demoReady (fst (mapper (demoBot True) 2 twoEvents None demoReady goodEvent)) =
     [GetUniqueSessionKey (SingleEvent goodEvent) None, StoreRead ''demo:bob'',
      UpdateSession bobFixed (SingleEvent goodEvent),
      CreateContext goodEvent (Some bobSession)]
   \<and> fixed bobFixed \<and> get bobFixed ''id'' = JStr ''demo:bob''
   \<and> get bobFixed ''platform'' = JStr ''demo''
   \<and> entries bobFixed = [(''id'', JStr ''demo:bob''), (''platform'', JStr ''demo'')]"
proof -
  have k: "getUniqueSessionKey (connector_of (demoBot True)) (payloadFor 2 twoEvents goodEvent) None
             = Inr (Some ''bob'')"
    by (simp add: demoBot_def demoConnector_def payloadFor_def eventOf_def goodEvent_def field_def)
  have rd: "store_read (sessions (demoBot True)) (store demoReady)
              (platform (connector_of (demoBot True)) @ '':'' @ ''bob'') = Inr None"
    by (simp add: demoBot_def memoryStore_def demoReady_def)
  have s0: "emptySession = (case None of None \<Rightarrow> emptySession | Some s \<Rightarrow> s)" by simp
  have ne: "''bob'' \<noteq> []" by simp
  have mem: "UpdateSession bobFixed (SingleEvent goodEvent) \<in>
      set (newCalls demoReady (fst (mapper (demoBot True) 2 twoEvents None demoReady goodEvent)))"
    by (simp add: demo_mapper_calls)
  from session_is_resolved_from_key[OF k ne rd s0] obtain st' res where
    m: "mapper (demoBot True) 2 twoEvents None demoReady goodEvent = (st', res)"
    and u: "\<forall>s1 pl. UpdateSession s1 pl \<in> set (newCalls demoReady st') \<longrightarrow>
              fixed s1 \<and>
              get s1 ''id'' =
                (if truthy (get emptySession ''id'') then get emptySession ''id''
                 else JStr (platform (connector_of (demoBot True)) @ '':'' @ ''bob'')) \<and>
              get s1 ''platform'' =
                (if truthy (get emptySession ''platform'') then get emptySession ''platform''
                 else JStr (platform (connector_of (demoBot True)))) \<and>
              (None = (None :: session option) \<longrightarrow>
                 entries s1 = [(''id'', JStr (platform (connector_of (demoBot True)) @ '':'' @ ''bob'')),
                               (''platform'', JStr (platform (connector_of (demoBot True))))])"
    by blast
  from m mem have "UpdateSession bobFixed (SingleEvent goodEvent) \<in> set (newCalls demoReady st')"
    by simp
  with u have "fixed bobFixed \<and>
              get bobFixed ''id'' =
                (if truthy (get emptySession ''id'') then get emptySession ''id''
                 else JStr (platform (connector_of (demoBot True)) @ '':'' @ ''bob'')) \<and>
              get bobFixed ''platform'' =
                (if truthy (get emptySession ''platform'') then get emptySession ''platform''
                 else JStr (platform (connector_of (demoBot True)))) \<and>
                 entries bobFixed = [(''id'', JStr (platform (connector_of (demoBot True)) @ '':'' @ ''bob'')),
                               (''platform'', JStr (platform (connector_of (demoBot True))))]"
    by blast
  moreover have "platform (connector_of (demoBot True)) = ''demo''"
    by (simp add: demoBot_def demoConnector_def)
  moreover have "get emptySession ''id'' = Undefined" "get emptySession ''platform'' = Undefined"
    by (simp_all add: get_def emptySession_def)
  ultimately show ?thesis by (simp add: demo_mapper_calls)
qed

text \<open>
  C4. Once \<^verbatim>\<open>id\<close> and \<^verbatim>\<open>platform\<close> of a session are fixed, what they read never changes:
  not by the mutations of the connector's \<^verbatim>\<open>updateSession\<close>, not by the plugins, not at any
  point of the mutations made by the handler, the context's hook and the error handler, and
  not by persistence; the session is written under its \<^verbatim>\<open>id\<close>, with the same two values.
\<close>

theorem identity_never_changes:
  assumes fx: "fixIdentity s0 sid plat = Inr s1"
    and c: "c = createContext conn ev (Some (apply_session_ops uops s1)) initial rc"
    and pl: "runPlugins exts c = Inr c1"
    and ps: "persist sto now (rs_context (t_state (runTask n call hook h eh c1))) st = (st', c2, errs)"
  shows "sessionIdentity c = Some (identity s1) \<and>
         sessionIdentity c1 = Some (identity s1) \<and>
         (\<forall>j. sessionIdentity (apply_ops (take j (rs_ops (t_state (runTask n call hook h eh c1)))) c1)
                = Some (identity s1)) \<and>
         sessionIdentity (rs_context (t_state (runTask n call hook h eh c1))) = Some (identity s1) \<and>
         sessionIdentity c2 = Some (identity s1) \<and>
         list_all (\<lambda>w. \<exists>s. w = StoreWrite (get s1 ''id'') s \<and> identity s = identity s1)
           (newCalls st st')"
proof -
  let ?i = "identity s1"
  let ?t = "runTask n call hook h eh c1"
  from fixIdentity_result[OF fx] have "fixed s1" by simp
  from apply_session_ops_identity[OF this, of uops] c have a: "settledIdentity ?i c"
    by (simp add: settledIdentity_def createContext_def)
  from runPlugins_identity[OF pl a] have b: "settledIdentity ?i c1" .
  have d: "settledIdentity ?i (apply_ops ops c1)" for ops
    by (rule apply_ops_identity[OF b])
  have e: "rs_context (t_state ?t) = apply_ops (rs_ops (t_state ?t)) c1"
    using runTask_replays[of c1 n call hook h eh] by (simp add: replays_def)
  with d have f: "settledIdentity ?i (rs_context (t_state ?t))" by simp
  note g = persist_identity[OF ps f]
  from a b d f g show ?thesis
    by (simp add: settledIdentity_sessionIdentity identity_def)
qed

theorem identity_never_changes_witness:
  "sessionIdentity bobContext = Some (JStr ''demo:bob'', JStr ''demo'')
   \<and> rs_ops (t_state (demoTask bobContext)) =
       [SetResponse (JStr ''ok''), OnSession (Assign ''count'' (JNum 1)),
        OnSession (Assign ''id'' (JStr ''changed''))]
   \<and> sessionIdentity (rs_context (t_state (demoTask bobContext)))
       = Some (JStr ''demo:bob'', JStr ''demo'')
   \<and> sessionIdentity (fst (snd (persist memoryStore 1000
         (rs_context (t_state (demoTask bobContext))) demoReady)))
       = Some (JStr ''demo:bob'', JStr ''demo'')"
proof -
  have fx: "fixIdentity emptySession ''demo:bob'' ''demo'' = Inr bobFixed"
    by (simp add: fixIdentity_empty bobFixed_def)
  have c: "bobContext = createContext demoConnector goodEvent
      (Some (apply_session_ops [Assign ''user'' (JStr ''bob''), Assign ''id'' (JStr ''other''),
         Delete ''platform''] bobFixed)) (JObj []) None"
    by (simp add: bobContext_def demo_update_ops)
  have pl: "runPlugins [] bobContext = Inr bobContext" by simp
  obtain st' c2 errs where ps: "persist memoryStore 1000
      (rs_context (t_state (runTask 2 demoActions None ''reply'' None bobContext))) demoReady
        = (st', c2, errs)"
    by (cases "persist memoryStore 1000
      (rs_context (t_state (runTask 2 demoActions None ''reply'' None bobContext))) demoReady") auto
  have i: "identity bobFixed = (JStr ''demo:bob'', JStr ''demo'')"
    by (simp add: identity_def bobFixed_def get_def)
  from identity_never_changes[OF fx c pl ps] ps i demo_bob_ops
  show ?thesis by (simp add: demoTask_def)
qed

end
